theory Spec2Isabelle
  imports Main
begin

section \<open>Link Autotitle: the URL-enrichment engine of \<open>src/main.ts\<close>\<close>

text \<open>
  A shallow embedding of the class \<open>URLEnhancerPlugin\<close>. A JavaScript string is a
  \<open>string\<close>; one \<open>char\<close> stands for one UTF-16 code unit in the range 0..255, so
  \<open>length\<close> is the source's \<open>.length\<close> and list positions are the source's string
  indices. Line numbers, positions, time stamps and retry counts are the non-negative
  integers the source stores in them, hence \<open>nat\<close>.
\<close>

subsection \<open>Data model\<close>

record URLMatch =
  murl :: string
  mindex :: nat

record ProcessingTask =
  url :: string
  lineNumber :: nat
  position :: nat
  timestamp :: nat

record RetryQueueItem =
  task :: ProcessingTask
  retries :: nat
  nextRetry :: nat

text \<open>
  A JavaScript \<open>Map\<close> keeps its entries in insertion order with one entry per key:
  an association list. \<open>set\<close> on a key that is present replaces the value where the
  entry stands; on a new key it appends.
\<close>

fun Map_set :: "('k \<times> 'v) list \<Rightarrow> 'k \<Rightarrow> 'v \<Rightarrow> ('k \<times> 'v) list" where
  "Map_set [] k v = [(k, v)]"
| "Map_set ((k', v') # m) k v = (if k' = k then (k, v) # m else (k', v') # Map_set m k v)"

definition Map_delete :: "('k \<times> 'v) list \<Rightarrow> 'k \<Rightarrow> ('k \<times> 'v) list" where
  "Map_delete m k = filter (\<lambda>e. fst e \<noteq> k) m"

fun Map_get :: "('k \<times> 'v) list \<Rightarrow> 'k \<Rightarrow> 'v option" where
  "Map_get [] k = None"
| "Map_get ((k', v') # m) k = (if k' = k then Some v' else Map_get m k)"

definition Map_has :: "('k \<times> 'v) list \<Rightarrow> 'k \<Rightarrow> bool" where
  "Map_has m k = (Map_get m k \<noteq> None)"

subsection \<open>String operations of the language\<close>

text \<open>
  \<open>String.prototype.trim\<close> and the regular-expression class \<open>\s\<close> use the same set:
  white space and line terminators. Of the code units below 256 these are TAB, LF, VT,
  FF, CR, SPACE and NBSP.
\<close>

definition isWhiteSpace :: "char \<Rightarrow> bool" where
  "isWhiteSpace c = (c \<in> set [CHR 0x09, CHR 0x0A, CHR 0x0B, CHR 0x0C, CHR 0x0D, CHR 0x20, CHR 0xA0])"

definition trim :: "string \<Rightarrow> string" where
  "trim s = rev (dropWhile isWhiteSpace (rev (dropWhile isWhiteSpace s)))"

definition startsWith :: "string \<Rightarrow> string \<Rightarrow> bool" where
  "startsWith s p = (take (length p) s = p)"

text \<open>\<open>s.includes(p)\<close>.\<close>

fun includes_str :: "string \<Rightarrow> string \<Rightarrow> bool" where
  "includes_str [] p = (p = [])"
| "includes_str (c # cs) p = (startsWith (c # cs) p \<or> includes_str cs p)"

text \<open>
  \<open>s.indexOf(p, pos)\<close>: the search starts at \<open>min pos (length s)\<close> and yields the
  first index where \<open>p\<close> occurs, or \<open>-1\<close>.
\<close>

fun indexOfFrom :: "string \<Rightarrow> string \<Rightarrow> nat \<Rightarrow> int" where
  "indexOfFrom [] p k = (if p = [] then int k else - 1)"
| "indexOfFrom (c # cs) p k = (if startsWith (c # cs) p then int k else indexOfFrom cs p (Suc k))"

definition indexOf :: "string \<Rightarrow> string \<Rightarrow> nat \<Rightarrow> int" where
  "indexOf s p pos = (let start = min pos (length s) in indexOfFrom (drop start s) p start)"

text \<open>\<open>s.split(sep)\<close> for a one-character separator: never the empty array.\<close>

fun split :: "char \<Rightarrow> string \<Rightarrow> string list" where
  "split sep [] = [[]]"
| "split sep (c # cs) =
     (if c = sep then [] # split sep cs
      else (case split sep cs of [] \<Rightarrow> [[c]] | w # ws \<Rightarrow> (c # w) # ws))"

text \<open>\<open>xs.join(sep)\<close>.\<close>

fun join :: "string \<Rightarrow> string list \<Rightarrow> string" where
  "join sep [] = []"
| "join sep [w] = w"
| "join sep (w # ws) = w @ sep @ join sep ws"

text \<open>\<open>xs.pop() || ""\<close>: the last element, the empty string for none.\<close>

definition pop_or_empty :: "string list \<Rightarrow> string" where
  "pop_or_empty xs = (case rev xs of [] \<Rightarrow> [] | w # _ \<Rightarrow> w)"

text \<open>
  Case-insensitive matching (flag \<open>i\<close>, no flag \<open>u\<close>) against a pattern of ASCII
  letters: a code unit matches the letter iff its ASCII lower case is the letter.
\<close>

definition lowerASCII :: "char \<Rightarrow> char" where
  "lowerASCII c = (if (65::nat) \<le> of_char c \<and> of_char c \<le> (90::nat)
                   then char_of (of_char c + (32::nat)) else c)"

definition startsWithCI :: "string \<Rightarrow> string \<Rightarrow> bool" where
  "startsWithCI s p = (map lowerASCII (take (length p) s) = p)"

text \<open>Decimal digits of a number, as a template literal prints a non-negative integer.\<close>

fun digits :: "nat \<Rightarrow> string" where
  "digits n = (if n < 10 then [char_of (48 + n)] else digits (n div 10) @ [char_of (48 + n mod 10)])"

declare digits.simps [simp del]

subsection \<open>The host platform\<close>

text \<open>
  \<open>URL\<close>, \<open>decodeURIComponent\<close> and \<open>fetch\<close> belong to the host, not to the
  repository: they are parameters of the model. \<open>URL_new\<close> is \<open>new URL(s)\<close>, \<open>None\<close>
  when it throws; \<open>decodeURIComponent\<close> is \<open>None\<close> when it throws \<open>URIError\<close>;
  \<open>fetch P k u\<close> is how the \<open>k\<close>-th call of \<open>fetch\<close> made so far ends when it asks
  for \<open>u\<close>.
\<close>

record URLobj =
  pathname :: string
  hostname :: string

text \<open>
  Of a response the source reads \<open>type === "opaque"\<close>, \<open>ok\<close>, \<open>json()\<close> (of which
  only \<open>title\<close> and \<open>provider_name\<close>, tested for truthiness: a missing field is the
  empty string here) and \<open>text()\<close> (the field \<open>body\<close>, \<open>None\<close> for a rejected promise).
\<close>

record Response =
  opaque :: bool
  ok :: bool
  json :: "(string \<times> string) option"
  body :: "string option"

datatype exn = Error string

datatype fetch_outcome = Rejected string | Resolved Response

record platform =
  URL_new :: "string \<Rightarrow> URLobj option"
  decodeURIComponent :: "string \<Rightarrow> string option"
  fetch :: "nat \<Rightarrow> string \<Rightarrow> fetch_outcome"

text \<open>What the network has been asked and how long the resolver has slept.\<close>

record net =
  calls :: nat
  slept :: "nat list"

subsection \<open>URL-derived fallback title (\<open>getTitleFromURL\<close>)\<close>

text \<open>\<open>.replace(/[-_]/g, " ")\<close>\<close>

definition replaceSeparators :: "string \<Rightarrow> string" where
  "replaceSeparators s = map (\<lambda>c. if c = CHR ''-'' \<or> c = CHR ''_'' then CHR '' '' else c) s"

text \<open>\<open>.replace(/^www\./, "")\<close>\<close>

definition stripWww :: "string \<Rightarrow> string" where
  "stripWww h = (if startsWith h ''www.'' then drop 4 h else h)"

text \<open>
  \<open>.replace(/\.(html|php|aspx?)$/i, "")\<close>: the leftmost position from which the rest
  of the string, to its end, is one of the four extensions the pattern admits.
\<close>

fun stripExt :: "string \<Rightarrow> string" where
  "stripExt [] = []"
| "stripExt (c # cs) =
     (if map lowerASCII (c # cs) \<in> set [''.html'', ''.php'', ''.aspx'', ''.asp''] then []
      else c # stripExt cs)"

definition getTitleFromURL :: "platform \<Rightarrow> string \<Rightarrow> string" where
  "getTitleFromURL P u =
     (case URL_new P u of
        None \<Rightarrow> u
      | Some urlObj \<Rightarrow>
          (case decodeURIComponent P (pop_or_empty (split (CHR ''/'') (pathname urlObj))) of
             None \<Rightarrow> u
           | Some decoded \<Rightarrow>
               (let pathTitle = replaceSeparators decoded;
                    pathTitle' = (if pathTitle = [] \<or> pathTitle = ''/''
                                  then stripWww (hostname urlObj) else pathTitle);
                    cleaned = trim (join '' '' (map trim
                                (split (CHR '' '') (replaceSeparators (stripExt pathTitle')))))
                in if cleaned = [] then hostname urlObj else cleaned)))"

subsection \<open>Title resolver (\<open>fetchPageTitleWithRetry\<close>)\<close>

text \<open>
  \<open>html.match(/<title>(.*?)<\/title>/i)\<close>: the first position where \<open><title>\<close>
  stands and from which the shortest run of characters other than line terminators
  leads to \<open></title>\<close>; the value is the captured run.
\<close>

fun lazyUntilClose :: "string \<Rightarrow> string option" where
  "lazyUntilClose [] = None"
| "lazyUntilClose (c # cs) =
     (if startsWithCI (c # cs) ''</title>'' then Some []
      else if c = CHR 0x0A \<or> c = CHR 0x0D then None
      else map_option ((#) c) (lazyUntilClose cs))"

fun titleMatch :: "string \<Rightarrow> string option" where
  "titleMatch [] = None"
| "titleMatch (c # cs) =
     (if startsWithCI (c # cs) ''<title>''
      then (case lazyUntilClose (drop 7 (c # cs)) of
              Some t \<Rightarrow> Some t
            | None \<Rightarrow> titleMatch cs)
      else titleMatch cs)"

text \<open>
  The first \<open>try\<close> block: one call to the embed service. \<open>None\<close> is every way of
  falling through to the loop, a caught exception included.
\<close>

definition oEmbed :: "platform \<Rightarrow> string \<Rightarrow> nat \<Rightarrow> string option" where
  "oEmbed P u k =
     (case fetch P k (''https://noembed.com/embed?url='' @ u) of
        Rejected m \<Rightarrow> None
      | Resolved r \<Rightarrow>
          if ok r
          then (case json r of
                  None \<Rightarrow> None
                | Some (title, provider_name) \<Rightarrow>
                    if title \<noteq> [] \<and> provider_name \<noteq> []
                    then Some (provider_name @ '' - '' @ title) else None)
          else None)"

text \<open>
  The inner \<open>try\<close> block of one loop iteration: \<open>Inl\<close> is an exception thrown in
  it, \<open>Inr (Some t)\<close> a \<open>return t\<close>, \<open>Inr None\<close> its normal end.
\<close>

definition directFetch :: "platform \<Rightarrow> string \<Rightarrow> nat \<Rightarrow> exn + string option" where
  "directFetch P u k =
     (case fetch P k u of
        Rejected m \<Rightarrow> Inl (Error m)
      | Resolved r \<Rightarrow>
          if opaque r then Inr (Some (getTitleFromURL P u))
          else if ok r
          then (case body r of
                  None \<Rightarrow> Inl (Error ''body unreadable'')
                | Some html \<Rightarrow>
                    (case titleMatch html of
                       Some t \<Rightarrow> Inr (Some (trim t))
                     | None \<Rightarrow> Inr None))
          else Inr None)"

text \<open>
  The outer \<open>try\<close> block: the inner block, its \<open>catch (e)\<close> that only warns, and
  the \<open>return this.getTitleFromURL(url)\<close> that follows both.
\<close>

definition attemptBody :: "platform \<Rightarrow> string \<Rightarrow> nat \<Rightarrow> exn + string" where
  "attemptBody P u k =
     (case directFetch P u k of
        Inl e \<Rightarrow> Inr (getTitleFromURL P u)
      | Inr (Some t) \<Rightarrow> Inr t
      | Inr None \<Rightarrow> Inr (getTitleFromURL P u))"

text \<open>
  The \<open>for\<close> loop with the outer \<open>catch\<close>: on an exception of the outer block, throw
  after the last attempt, else sleep \<open>delay * 2 ** attempt\<close> and go on.
\<close>

function retryLoop :: "platform \<Rightarrow> string \<Rightarrow> nat \<Rightarrow> nat \<Rightarrow> nat \<Rightarrow> net \<Rightarrow> (exn + string) \<times> net" where
  "retryLoop P u maxRetries delay attempt n =
     (if attempt \<le> maxRetries
      then (case attemptBody P u (calls n) of
              Inr t \<Rightarrow> (Inr t, n\<lparr>calls := Suc (calls n)\<rparr>)
            | Inl e \<Rightarrow>
                if attempt = maxRetries then (Inl e, n\<lparr>calls := Suc (calls n)\<rparr>)
                else retryLoop P u maxRetries delay (Suc attempt)
                       (n\<lparr>calls := Suc (calls n), slept := slept n @ [delay * 2 ^ attempt]\<rparr>))
      else (Inr u, n))"
  by pat_completeness auto
termination
  by (relation "measure (\<lambda>(P, u, maxRetries, delay, attempt, n). Suc maxRetries - attempt)") auto

declare retryLoop.simps [simp del]

definition fetchPageTitleWithRetry :: "platform \<Rightarrow> string \<Rightarrow> nat \<Rightarrow> nat \<Rightarrow> net \<Rightarrow> (exn + string) \<times> net" where
  "fetchPageTitleWithRetry P u maxRetries delay n =
     (case oEmbed P u (calls n) of
        Some t \<Rightarrow> (Inr t, n\<lparr>calls := Suc (calls n)\<rparr>)
      | None \<Rightarrow> retryLoop P u maxRetries delay 0 (n\<lparr>calls := Suc (calls n)\<rparr>))"

subsection \<open>Title cache (\<open>updateCache\<close>)\<close>

definition MAX_CACHE_SIZE :: nat where
  "MAX_CACHE_SIZE = 1000"

text \<open>
  \<open>this.urlCache.keys().next().value\<close> is the key of the oldest entry, or
  \<open>undefined\<close> on an empty map, where \<open>delete\<close> then removes nothing.
\<close>

definition updateCache :: "(string \<times> string) list \<Rightarrow> string \<Rightarrow> string \<Rightarrow> (string \<times> string) list" where
  "updateCache c u title =
     (let c' = (if length c \<ge> MAX_CACHE_SIZE
                then (case c of [] \<Rightarrow> c | e # _ \<Rightarrow> Map_delete c (fst e))
                else c)
      in Map_set c' u title)"

text \<open>A run of insertions, oldest first, as the per-task pipeline performs them.\<close>

definition inserts :: "(string \<times> string) list \<Rightarrow> (string \<times> string) list \<Rightarrow> (string \<times> string) list" where
  "inserts c kvs = foldl (\<lambda>c' e. updateCache c' (fst e) (snd e)) c kvs"

subsection \<open>URL matcher (\<open>findURLsInText\<close>)\<close>

text \<open>The class \<open>[^\s)]\<close>.\<close>

definition isUrlChar :: "char \<Rightarrow> bool" where
  "isUrlChar c = (\<not> isWhiteSpace c \<and> c \<noteq> CHR '')'')"

text \<open>
  \<open>https?:\/\/[^\s)]+\<close> at the start of a string: the length of the match. The
  class is greedy and nothing follows it, so the match takes the whole run.
\<close>

definition matchBody :: "string \<Rightarrow> nat option" where
  "matchBody s =
     (case (if startsWith s ''https://'' then Some 8
            else if startsWith s ''http://'' then Some 7 else None) of
        None \<Rightarrow> None
      | Some k \<Rightarrow>
          (if takeWhile isUrlChar (drop k s) = [] then None
           else Some (k + length (takeWhile isUrlChar (drop k s)))))"

text \<open>
  The whole pattern at index \<open>i\<close>: the look-behind \<open>(?<!\]\()\<close> fails exactly when
  the two characters before \<open>i\<close> are \<open>](\<close>.
\<close>

definition matchAt :: "string \<Rightarrow> nat \<Rightarrow> nat option" where
  "matchAt str i =
     (if 2 \<le> i \<and> take 2 (drop (i - 2) str) = ''](''  then None else matchBody (drop i str))"

text \<open>
  The \<open>while\<close> loop over \<open>urlRegex.exec(text)\<close> with the flag \<open>g\<close>: \<open>i\<close> is
  \<open>lastIndex\<close>. A search that starts at the end of the text finds nothing, the
  pattern needing eight characters at least.
\<close>

function execLoop :: "string \<Rightarrow> nat \<Rightarrow> URLMatch list" where
  "execLoop str i =
     (if length str \<le> i then []
      else (case matchAt str i of
              None \<Rightarrow> execLoop str (Suc i)
            | Some n \<Rightarrow> \<lparr>murl = trim (take n (drop i str)), mindex = i\<rparr> # execLoop str (i + n)))"
  by pat_completeness auto
termination
  by (relation "measure (\<lambda>(str, i). length str - i)")
     (auto simp: matchAt_def matchBody_def split: if_splits)

declare execLoop.simps [simp del]

definition findURLsInText :: "string \<Rightarrow> URLMatch list" where
  "findURLsInText str = execLoop str 0"

subsection \<open>Engine state\<close>

text \<open>
  The fields of the plugin object, and with them what it acts on: the lines of the
  editor, the network log, and the URLs that \<open>console.error\<close> reported as failed.
  The editor answers \<open>getLine\<close> with the line, or with nothing for a line number past
  the end of the document, which is the case the source tests with \<open>!currentLine\<close>.
\<close>

record state =
  urlCache :: "(string \<times> string) list"
  processingUrls :: "string set"
  processingQueue :: "ProcessingTask list"
  isProcessing :: bool
  retryQueue :: "(string \<times> RetryQueueItem) list"
  document :: "string list"
  network :: net
  failures :: "string list"

definition getLine :: "state \<Rightarrow> nat \<Rightarrow> string option" where
  "getLine s n = (if n < length (document s) then Some (document s ! n) else None)"

definition setLine :: "state \<Rightarrow> nat \<Rightarrow> string \<Rightarrow> state" where
  "setLine s n l = s\<lparr>document := (document s)[n := l]\<rparr>"

text \<open>The three keys, as the template literals build them.\<close>

definition dashed :: "string \<Rightarrow> nat \<Rightarrow> string" where
  "dashed s n = s @ ''-'' @ digits n"

definition batchKey :: "ProcessingTask \<Rightarrow> string" where
  "batchKey t = dashed (url t) (lineNumber t)"

definition retryKey :: "ProcessingTask \<Rightarrow> string" where
  "retryKey t = dashed (dashed (url t) (lineNumber t)) (position t)"

definition inflightKey :: "ProcessingTask \<Rightarrow> string" where
  "inflightKey t = dashed (dashed (dashed (url t) (lineNumber t)) (position t)) (timestamp t)"

subsection \<open>Per-task pipeline (\<open>processURL\<close>)\<close>

text \<open>
  The title resolver as \<open>processURL\<close> calls it: from a URL and the network log to a
  title or an exception, and the new log.
\<close>

type_synonym resolver = "string \<Rightarrow> net \<Rightarrow> (exn + string) \<times> net"

definition defaultResolver :: "platform \<Rightarrow> resolver" where
  "defaultResolver P = (\<lambda>u n. fetchPageTitleWithRetry P u 3 1000 n)"

definition replaceURLWithMarkdown :: "ProcessingTask \<Rightarrow> string \<Rightarrow> state \<Rightarrow> state" where
  "replaceURLWithMarkdown t markdownLink s =
     (case getLine s (lineNumber t) of
        None \<Rightarrow> s
      | Some l \<Rightarrow>
          if l = [] then s
          else setLine s (lineNumber t)
                 (take (position t) l @ markdownLink @ drop (position t + length (url t)) l))"

text \<open>
  The \<open>try\<close> block of \<open>processURL\<close>: \<open>None\<close> is a normal return, \<open>Some e\<close> an
  exception. The cache is a \<open>Map<string, string>\<close>, so the test that throws
  \<open>Invalid cache entry\<close> never succeeds and has no branch here.
\<close>

definition processBody :: "resolver \<Rightarrow> ProcessingTask \<Rightarrow> state \<Rightarrow> exn option \<times> state" where
  "processBody R t s =
     (case getLine s (lineNumber t) of
        None \<Rightarrow> (None, s)
      | Some currentLine \<Rightarrow>
          if currentLine = [] \<or> indexOf currentLine (url t) (position t) \<noteq> int (position t)
          then (None, s)
          else (case Map_get (urlCache s) (url t) of
                  Some cachedTitle \<Rightarrow>
                    (None, replaceURLWithMarkdown t (''['' @ cachedTitle @ '']('' @ url t @ '')'') s)
                | None \<Rightarrow>
                    (case R (url t) (network s) of
                       (Inl e, n) \<Rightarrow> (Some e, s\<lparr>network := n\<rparr>)
                     | (Inr title, n) \<Rightarrow>
                         (None, replaceURLWithMarkdown t (''['' @ title @ '']('' @ url t @ '')'')
                                  (s\<lparr>network := n, urlCache := updateCache (urlCache s) (url t) title\<rparr>)))))"

definition processURL :: "resolver \<Rightarrow> ProcessingTask \<Rightarrow> string \<Rightarrow> state \<Rightarrow> exn option \<times> state" where
  "processURL R t key s =
     (case processBody R t (s\<lparr>processingUrls := insert key (processingUrls s)\<rparr>) of
        (r, s') \<Rightarrow> (r, s'\<lparr>processingUrls := processingUrls s' - {key}\<rparr>))"

subsection \<open>Retry queue (\<open>addToRetryQueue\<close>, \<open>processRetryQueue\<close>)\<close>

definition addToRetryQueue :: "nat \<Rightarrow> ProcessingTask \<Rightarrow> state \<Rightarrow> state" where
  "addToRetryQueue now t s =
     (let key = retryKey t; existing = Map_get (retryQueue s) key
      in if existing = None \<or> retries (the existing) < 3
         then s\<lparr>retryQueue := Map_set (retryQueue s) key
                  \<lparr>task = t,
                   retries = (case existing of None \<Rightarrow> 0 | Some e \<Rightarrow> retries e) + 1,
                   nextRetry = now + 2 ^ (case existing of None \<Rightarrow> 0 | Some e \<Rightarrow> retries e) * 1000\<rparr>\<rparr>
         else s)"

text \<open>
  One pass of \<open>processRetryQueue\<close> over the entries that are due. \<open>editor\<close> says
  whether \<open>getActiveEditor()\<close> finds one; \<open>item\<close> is the entry as the pass found it
  when it began.
\<close>

fun retryEach :: "resolver \<Rightarrow> bool \<Rightarrow> (string \<times> RetryQueueItem) list \<Rightarrow> state \<Rightarrow> state" where
  "retryEach R editor [] s = s"
| "retryEach R editor ((key, item) # rest) s =
     retryEach R editor rest
       (if editor
        then (case processURL R (task item) key s of
                (None, s') \<Rightarrow> s'\<lparr>retryQueue := Map_delete (retryQueue s') key\<rparr>
              | (Some e, s') \<Rightarrow>
                  if 3 \<le> retries item then s'\<lparr>retryQueue := Map_delete (retryQueue s') key\<rparr>
                  else s')
        else s)"

definition processRetryQueue :: "resolver \<Rightarrow> bool \<Rightarrow> nat \<Rightarrow> state \<Rightarrow> state" where
  "processRetryQueue R editor now s =
     retryEach R editor (filter (\<lambda>e. nextRetry (snd e) \<le> now) (retryQueue s)) s"

subsection \<open>Task queue (\<open>addToProcessingQueue\<close>, \<open>processQueue\<close>)\<close>

text \<open>
  The loop that fills \<open>uniqueTasks\<close>, and the tasks whose functions are queued:
  the values of that map, in insertion order, built from the batch sorted by
  position (\<open>Array.prototype.sort\<close> is stable, and so is \<open>sort_key\<close>).
\<close>

fun uniqueTasks :: "(string \<times> ProcessingTask) list \<Rightarrow> ProcessingTask list \<Rightarrow> (string \<times> ProcessingTask) list" where
  "uniqueTasks m [] = m"
| "uniqueTasks m (t # ts) =
     uniqueTasks (if Map_has m (batchKey t) then m else Map_set m (batchKey t) t) ts"

definition dedupTasks :: "ProcessingTask list \<Rightarrow> ProcessingTask list" where
  "dedupTasks tasks = map snd (uniqueTasks [] (sort_key position tasks))"

text \<open>
  The function queued for a task. An exception of \<open>processURL\<close> is always an
  \<open>Error\<close> here; \<open>now\<close> is \<open>Date.now()\<close> where \<open>addToRetryQueue\<close> reads it.
\<close>

definition processingFunction :: "resolver \<Rightarrow> nat \<Rightarrow> ProcessingTask \<Rightarrow> state \<Rightarrow> state" where
  "processingFunction R now t s =
     (if inflightKey t \<in> processingUrls s then s
      else (case processURL R t (inflightKey t) s of
              (None, s') \<Rightarrow> s'
            | (Some (Error m), s') \<Rightarrow>
                (if includes_str m ''fetch''
                 then addToRetryQueue now t (s'\<lparr>failures := failures s' @ [url t]\<rparr>)
                 else s'\<lparr>failures := failures s' @ [url t]\<rparr>)))"

text \<open>
  \<open>processQueue\<close> run to its end with nothing else in between: each queued function
  in turn, shifted off the queue first.
\<close>

fun drain :: "resolver \<Rightarrow> nat \<Rightarrow> ProcessingTask list \<Rightarrow> state \<Rightarrow> state" where
  "drain R now [] s = s"
| "drain R now (t # rest) s =
     drain R now rest (processingFunction R now t (s\<lparr>processingQueue := rest\<rparr>))"

definition processQueue :: "resolver \<Rightarrow> nat \<Rightarrow> state \<Rightarrow> state" where
  "processQueue R now s =
     (if isProcessing s \<or> processingQueue s = [] then s
      else (drain R now (processingQueue s) (s\<lparr>isProcessing := True\<rparr>))\<lparr>isProcessing := False\<rparr>)"

definition enqueue :: "ProcessingTask list \<Rightarrow> state \<Rightarrow> state" where
  "enqueue tasks s = s\<lparr>processingQueue := processingQueue s @ dedupTasks tasks\<rparr>"

definition addToProcessingQueue :: "resolver \<Rightarrow> nat \<Rightarrow> ProcessingTask list \<Rightarrow> state \<Rightarrow> state" where
  "addToProcessingQueue R now tasks s =
     (let s' = enqueue tasks s in if \<not> isProcessing s' then processQueue R now s' else s')"

subsection \<open>Change events (\<open>handleChange\<close>)\<close>

text \<open>
  The callback that the debounce timer of \<open>handleChange\<close> runs, with the cursor on
  line \<open>line\<close>. Reading \<open>.length\<close> of a line that does not exist is a \<open>TypeError\<close>.
\<close>

definition handleChangeCallback :: "resolver \<Rightarrow> nat \<Rightarrow> nat \<Rightarrow> state \<Rightarrow> exn option \<times> state" where
  "handleChangeCallback R now line s =
     (case getLine s line of
        None \<Rightarrow> (Some (Error ''TypeError''), s)
      | Some currentLine \<Rightarrow>
          if length currentLine \<le> 10 then (None, s)
          else (let urlMatches = findURLsInText currentLine
                in if urlMatches = [] then (None, s)
                   else (None, addToProcessingQueue R now
                           (map (\<lambda>m. \<lparr>url = murl m, lineNumber = line,
                                       position = mindex m, timestamp = now\<rparr>) urlMatches) s)))"

subsection \<open>The fallback title in the specification's words\<close>

text \<open>
  The fallback as the specification words it: the last non-empty path segment,
  percent-decoded, its separators replaced by spaces, one of the three extensions it
  lists removed; the host name without a leading \<open>www.\<close> when that leaves nothing;
  the host name if the result is empty; the input if it is no URL. The words do not
  say what a failing decoder leads to: there this definition follows the code.
\<close>

definition lastNonEmptySegment :: "string \<Rightarrow> string" where
  "lastNonEmptySegment p = pop_or_empty (filter (\<lambda>w. w \<noteq> []) (split (CHR ''/'') p))"

definition endsWith :: "string \<Rightarrow> string \<Rightarrow> bool" where
  "endsWith s e = (length e \<le> length s \<and> drop (length s - length e) s = e)"

definition stripListed :: "string \<Rightarrow> string" where
  "stripListed s =
     (if endsWith s ''.html'' \<or> endsWith s ''.aspx'' then take (length s - 5) s
      else if endsWith s ''.php'' then take (length s - 4) s
      else s)"

definition titleBySpec :: "platform \<Rightarrow> string \<Rightarrow> string" where
  "titleBySpec P u =
     (case URL_new P u of
        None \<Rightarrow> u
      | Some urlObj \<Rightarrow>
          (case decodeURIComponent P (lastNonEmptySegment (pathname urlObj)) of
             None \<Rightarrow> u
           | Some decoded \<Rightarrow>
               (let cleaned = stripListed (replaceSeparators decoded);
                    cleaned' = (if cleaned = [] then stripWww (hostname urlObj) else cleaned)
                in if cleaned' = [] then hostname urlObj else cleaned')))"

subsection \<open>The fallback title as the code computes it, described\<close>

text \<open>
  The text after the last \<open>/\<close> of the path; a string whose end, in any letter case,
  is one of \<open>.html\<close>, \<open>.php\<close>, \<open>.asp\<close>, \<open>.aspx\<close>, without that end; a string
  with each of its space-separated words trimmed, and trimmed as a whole.
\<close>

definition afterLastSlash :: "string \<Rightarrow> string" where
  "afterLastSlash p = rev (takeWhile (\<lambda>c. c \<noteq> CHR ''/'') (rev p))"

definition endsWithCI :: "string \<Rightarrow> string \<Rightarrow> bool" where
  "endsWithCI s e = (length e \<le> length s \<and> map lowerASCII (drop (length s - length e) s) = e)"

definition dropExtension :: "string \<Rightarrow> string" where
  "dropExtension s =
     (if endsWithCI s ''.html'' \<or> endsWithCI s ''.aspx'' then take (length s - 5) s
      else if endsWithCI s ''.php'' \<or> endsWithCI s ''.asp'' then take (length s - 4) s
      else s)"

definition tidy :: "string \<Rightarrow> string" where
  "tidy s = trim (join '' '' (map trim (split (CHR '' '') s)))"

definition titleDescribed :: "platform \<Rightarrow> string \<Rightarrow> string" where
  "titleDescribed P u =
     (case URL_new P u of
        None \<Rightarrow> u
      | Some urlObj \<Rightarrow>
          (case decodeURIComponent P (afterLastSlash (pathname urlObj)) of
             None \<Rightarrow> u
           | Some decoded \<Rightarrow>
               (let named = (if decoded = [] \<or> decoded = ''/'' then stripWww (hostname urlObj)
                             else replaceSeparators decoded);
                    cleaned = tidy (replaceSeparators (dropExtension named))
                in if cleaned = [] then hostname urlObj else cleaned)))"

subsection \<open>Sample inputs\<close>

text \<open>
  The plugin as \<open>onload\<close> leaves it, with an editor that shows the one line of the
  specification's scenario A; a task for the URL on that line, where it stands and
  where it does not; a resolver that answers with that scenario's title.
\<close>

definition initial :: state where
  "initial = \<lparr>urlCache = [], processingUrls = {}, processingQueue = [], isProcessing = False,
              retryQueue = [], document = [''see https://example.com/cool-page for info''],
              network = \<lparr>calls = 0, slept = []\<rparr>, failures = []\<rparr>"

definition coolPage :: ProcessingTask where
  "coolPage = \<lparr>url = ''https://example.com/cool-page'', lineNumber = 0, position = 4, timestamp = 1\<rparr>"

definition coolPageMoved :: ProcessingTask where
  "coolPageMoved = \<lparr>url = ''https://example.com/cool-page'', lineNumber = 0, position = 0, timestamp = 1\<rparr>"

definition titled :: resolver where
  "titled = (\<lambda>u n. (Inr ''Cool Page Title'', n\<lparr>calls := Suc (calls n)\<rparr>))"

definition cached :: state where
  "cached = initial\<lparr>urlCache := [(''https://example.com/cool-page'', ''Cool Page Title'')]\<rparr>"

definition shortLine :: state where
  "shortLine = initial\<lparr>document := [''http://a.b'']\<rparr>"

text \<open>
  A host that is off line: every \<open>fetch\<close> rejects. Its \<open>URL\<close> is tabulated on the
  inputs used below, with the path and host name that the URL Standard gives for
  them, and throws on \<open>not a url\<close>. Its \<open>decodeURIComponent\<close> returns a string
  without \<open>%\<close> as it is; of the strings with \<open>%\<close> only \<open>100%\<close> is used below, where
  it throws.
\<close>

definition offline :: platform where
  "offline =
     \<lparr>URL_new = map_of
        [(''https://example.org/My_Report.html'', \<lparr>pathname = ''/My_Report.html'', hostname = ''example.org''\<rparr>),
         (''https://example.org/'', \<lparr>pathname = ''/'', hostname = ''example.org''\<rparr>),
         (''https://example.org/docs/'', \<lparr>pathname = ''/docs/'', hostname = ''example.org''\<rparr>),
         (''https://example.org/page.asp'', \<lparr>pathname = ''/page.asp'', hostname = ''example.org''\<rparr>),
         (''https://example.org/INDEX.HTML'', \<lparr>pathname = ''/INDEX.HTML'', hostname = ''example.org''\<rparr>),
         (''https://example.org/100%'', \<lparr>pathname = ''/100%'', hostname = ''example.org''\<rparr>),
         (''https://my-site.org/'', \<lparr>pathname = ''/'', hostname = ''my-site.org''\<rparr>),
         (''https://example.com/cool-page'', \<lparr>pathname = ''/cool-page'', hostname = ''example.com''\<rparr>)],
      decodeURIComponent = (\<lambda>s. if CHR ''%'' \<in> set s then None else Some s),
      fetch = (\<lambda>k u. Rejected ''Failed to fetch'')\<rparr>"

text \<open>A resolver that raises a transient error on every call, and passes of the retry scheduler at the given times with an editor at hand.\<close>

definition failing :: resolver where
  "failing = (\<lambda>u n. (Inl (Error ''Failed to fetch''), n\<lparr>calls := Suc (calls n)\<rparr>))"

definition retryPasses :: "resolver \<Rightarrow> nat list \<Rightarrow> state \<Rightarrow> state" where
  "retryPasses R ticks s = foldl (\<lambda>s' now. processRetryQueue R True now s') s ticks"

text \<open>The state after the queued function of the sample task has failed once, at time 5.\<close>

definition afterFailure :: state where
  "afterFailure = processingFunction failing 5 coolPage initial"

definition held :: "(string \<times> RetryQueueItem) list" where
  "held = [(''https://example.com/cool-page-0-4'', \<lparr>task = coolPage, retries = 1, nextRetry = 1005\<rparr>)]"




text \<open>
  A string of the shape the matcher's pattern describes: \<open>http://\<close> or \<open>https://\<close>
  and then one character or more, none of them white space or \<open>)\<close>.
\<close>

definition urlShaped :: "string \<Rightarrow> bool" where
  "urlShaped u =
     (if startsWith u ''https://'' then drop 8 u \<noteq> [] \<and> list_all isUrlChar (drop 8 u)
      else startsWith u ''http://'' \<and> drop 7 u \<noteq> [] \<and> list_all isUrlChar (drop 7 u))"

subsection \<open>Interleaving at the suspension points\<close>

text \<open>
  \<open>processURL\<close> suspends at one place, the \<open>await\<close> of the title resolver. Up to
  there it has read the line and the cache: it has returned (a stale task, or a
  cache hit with the link written), or it is awaiting the resolver. When the
  resolver settles, the rest runs: an exception, or the cache update and the link.
\<close>

datatype entered = Returned state | Awaiting

definition enterBody :: "ProcessingTask \<Rightarrow> state \<Rightarrow> entered" where
  "enterBody t s =
     (case getLine s (lineNumber t) of
        None \<Rightarrow> Returned s
      | Some currentLine \<Rightarrow>
          if currentLine = [] \<or> indexOf currentLine (url t) (position t) \<noteq> int (position t)
          then Returned s
          else (case Map_get (urlCache s) (url t) of
                  Some cachedTitle \<Rightarrow>
                    Returned (replaceURLWithMarkdown t (''['' @ cachedTitle @ '']('' @ url t @ '')'') s)
                | None \<Rightarrow> Awaiting))"

definition finishBody :: "resolver \<Rightarrow> ProcessingTask \<Rightarrow> state \<Rightarrow> exn option \<times> state" where
  "finishBody R t s =
     (case R (url t) (network s) of
        (Inl e, n) \<Rightarrow> (Some e, s\<lparr>network := n\<rparr>)
      | (Inr title, n) \<Rightarrow>
          (None, replaceURLWithMarkdown t (''['' @ title @ '']('' @ url t @ '')'')
                   (s\<lparr>network := n, urlCache := updateCache (urlCache s) (url t) title\<rparr>)))"

text \<open>
  Between two suspension points the plugin runs without interruption, so a run of the
  plugin is a sequence of events, each one such stretch: a call of
  \<open>addToProcessingQueue\<close>; an edit of the document by the user; the end of the
  resolver that a loop of \<open>processQueue\<close> awaits, and the end of that loop's pause; the
  timer that starts a pass of \<open>processRetryQueue\<close>, the pass reaching its next entry
  (with or without an active editor), and the end of the resolver that the pass
  awaits. A loop of \<open>processQueue\<close> is awaiting \<open>processURL\<close> under a key for a
  task, or pausing; the pass of \<open>processRetryQueue\<close> is asleep, or between two of its
  entries, or awaiting \<open>processURL\<close> under a key for an entry.
\<close>

datatype drainer = Resolving string ProcessingTask | Pausing

datatype retrier =
    Sleeping
  | Looping "(string \<times> RetryQueueItem) list"
  | Retrying string RetryQueueItem "(string \<times> RetryQueueItem) list"

record sys =
  engine :: state
  drainers :: "drainer list"
  retrier :: retrier

datatype event =
    Enqueue "ProcessingTask list"
  | Edit "string list"
  | Resolved nat nat
  | Paused nat
  | Tick nat
  | RetryNext bool
  | RetryResolved

text \<open>
  The head of the \<open>while\<close> loop for loop \<open>i\<close>: with the queue empty the loop ends
  and \<open>finally\<close> clears \<open>isProcessing\<close>; else the next function is shifted off and
  run up to its first suspension point. It returns at once if its key is marked in
  flight; else it enters \<open>processURL\<close>, which marks the key, and either returns,
  unmarking the key, or awaits the resolver.
\<close>

definition loopHead :: "nat \<Rightarrow> sys \<Rightarrow> sys" where
  "loopHead i s =
     (case processingQueue (engine s) of
        [] \<Rightarrow> s\<lparr>engine := (engine s)\<lparr>isProcessing := False\<rparr>,
               drainers := take i (drainers s) @ drop (Suc i) (drainers s)\<rparr>
      | t # rest \<Rightarrow>
          (let e = (engine s)\<lparr>processingQueue := rest\<rparr>
           in if inflightKey t \<in> processingUrls e
              then s\<lparr>engine := e, drainers := (drainers s)[i := Pausing]\<rparr>
              else (case enterBody t (e\<lparr>processingUrls := insert (inflightKey t) (processingUrls e)\<rparr>) of
                      Returned e' \<Rightarrow>
                        s\<lparr>engine := e'\<lparr>processingUrls := processingUrls e' - {inflightKey t}\<rparr>,
                          drainers := (drainers s)[i := Pausing]\<rparr>
                    | Awaiting \<Rightarrow>
                        s\<lparr>engine := e\<lparr>processingUrls := insert (inflightKey t) (processingUrls e)\<rparr>,
                          drainers := (drainers s)[i := Resolving (inflightKey t) t]\<rparr>)))"

text \<open>
  The head of the \<open>for\<close> loop of a pass over the entries still to visit: with an
  editor it enters \<open>processURL\<close> under the entry's key, with no look at the marks.
\<close>

definition passHead :: "bool \<Rightarrow> (string \<times> RetryQueueItem) list \<Rightarrow> sys \<Rightarrow> sys" where
  "passHead editor due s =
     (case due of
        [] \<Rightarrow> s\<lparr>retrier := Sleeping\<rparr>
      | (key, item) # rest \<Rightarrow>
          if editor
          then (let e = (engine s)\<lparr>processingUrls := insert key (processingUrls (engine s))\<rparr>
                in case enterBody (task item) e of
                     Returned e' \<Rightarrow>
                       s\<lparr>engine := e'\<lparr>processingUrls := processingUrls e' - {key},
                                     retryQueue := Map_delete (retryQueue e') key\<rparr>,
                         retrier := Looping rest\<rparr>
                   | Awaiting \<Rightarrow> s\<lparr>engine := e, retrier := Retrying key item rest\<rparr>)
          else s\<lparr>retrier := Looping rest\<rparr>)"

fun step :: "resolver \<Rightarrow> event \<Rightarrow> sys \<Rightarrow> sys option" where
  "step R (Enqueue tasks) s =
     (let s' = s\<lparr>engine := enqueue tasks (engine s)\<rparr>
      in if isProcessing (engine s') \<or> processingQueue (engine s') = [] then Some s'
         else Some (loopHead (length (drainers s'))
                (s'\<lparr>engine := (engine s')\<lparr>isProcessing := True\<rparr>,
                    drainers := drainers s' @ [Pausing]\<rparr>)))"
| "step R (Edit d) s = Some (s\<lparr>engine := (engine s)\<lparr>document := d\<rparr>\<rparr>)"
| "step R (Resolved i now) s =
     (if i < length (drainers s)
      then (case drainers s ! i of
              Pausing \<Rightarrow> None
            | Resolving key t \<Rightarrow>
                (case finishBody R t (engine s) of
                   (r, e) \<Rightarrow>
                     (let e' = e\<lparr>processingUrls := processingUrls e - {key}\<rparr>;
                          e'' = (case r of
                                   None \<Rightarrow> e'
                                 | Some (Error m) \<Rightarrow>
                                     if includes_str m ''fetch''
                                     then addToRetryQueue now t (e'\<lparr>failures := failures e' @ [url t]\<rparr>)
                                     else e'\<lparr>failures := failures e' @ [url t]\<rparr>)
                      in Some (s\<lparr>engine := e'', drainers := (drainers s)[i := Pausing]\<rparr>))))
      else None)"
| "step R (Paused i) s =
     (if i < length (drainers s)
      then (case drainers s ! i of
              Pausing \<Rightarrow> Some (loopHead i s)
            | Resolving key t \<Rightarrow> None)
      else None)"
| "step R (Tick now) s =
     (case retrier s of
        Sleeping \<Rightarrow>
          Some (s\<lparr>retrier := Looping (filter (\<lambda>e. nextRetry (snd e) \<le> now) (retryQueue (engine s)))\<rparr>)
      | Looping due \<Rightarrow> None
      | Retrying key item rest \<Rightarrow> None)"
| "step R (RetryNext editor) s =
     (case retrier s of
        Sleeping \<Rightarrow> None
      | Looping due \<Rightarrow> Some (passHead editor due s)
      | Retrying key item rest \<Rightarrow> None)"
| "step R RetryResolved s =
     (case retrier s of
        Sleeping \<Rightarrow> None
      | Looping due \<Rightarrow> None
      | Retrying key item rest \<Rightarrow>
          (case finishBody R (task item) (engine s) of
             (r, e) \<Rightarrow>
               (let e' = e\<lparr>processingUrls := processingUrls e - {key}\<rparr>;
                    e'' = (case r of
                             None \<Rightarrow> e'\<lparr>retryQueue := Map_delete (retryQueue e') key\<rparr>
                           | Some x \<Rightarrow>
                               if 3 \<le> retries item
                               then e'\<lparr>retryQueue := Map_delete (retryQueue e') key\<rparr>
                               else e')
                in Some (s\<lparr>engine := e'', retrier := Looping rest\<rparr>))))"

fun run :: "resolver \<Rightarrow> event list \<Rightarrow> sys \<Rightarrow> sys option" where
  "run R [] s = Some s"
| "run R (e # es) s = (case step R e s of None \<Rightarrow> None | Some s' \<Rightarrow> run R es s')"

text \<open>The plugin after \<open>onload\<close>, its first pass of \<open>processRetryQueue\<close> over and asleep.\<close>

definition loaded :: sys where
  "loaded = \<lparr>engine = initial, drainers = [], retrier = Sleeping\<rparr>"

definition reachable :: "resolver \<Rightarrow> sys \<Rightarrow> bool" where
  "reachable R s = (\<exists>es. run R es loaded = Some s)"

text \<open>The resolutions in flight: the key each was entered under, and its task.\<close>

fun resolving :: "drainer list \<Rightarrow> (string \<times> ProcessingTask) list" where
  "resolving [] = []"
| "resolving (Resolving key t # ds) = (key, t) # resolving ds"
| "resolving (Pausing # ds) = resolving ds"

definition inFlight :: "sys \<Rightarrow> (string \<times> ProcessingTask) list" where
  "inFlight s =
     resolving (drainers s) @
     (case retrier s of
        Sleeping \<Rightarrow> []
      | Looping due \<Rightarrow> []
      | Retrying key item rest \<Rightarrow> [(key, task item)])"

text \<open>
  What holds of every state that the plugin reaches with a resolver that never
  throws: nothing is held for retry, no pass has an entry to visit, and one loop of
  \<open>processQueue\<close> runs exactly when \<open>isProcessing\<close> is set.
\<close>

definition quiet :: "sys \<Rightarrow> bool" where
  "quiet s =
     (retryQueue (engine s) = [] \<and>
      (retrier s = Sleeping \<or> retrier s = Looping []) \<and>
      length (drainers s) \<le> 1 \<and>
      (isProcessing (engine s) \<longleftrightarrow> drainers s \<noteq> []))"

text \<open>
  Two runs with the resolver that always throws \<open>Failed to fetch\<close>. In the first the
  same task is queued by two batches of the same millisecond; the first copy fails
  and is held, and the second copy is awaiting the resolver when the pass reaches the
  held entry. In the second a task fails and is held; a task whose in-flight key is
  the same string as the held task's retry key is then queued and is awaiting the
  resolver when the pass reaches the held entry.
\<close>

definition sameTaskRun :: "event list" where
  "sameTaskRun =
     [Enqueue [coolPage], Enqueue [coolPage], Resolved 0 2, Paused 0, Tick 1002, RetryNext True]"

definition held7 :: ProcessingTask where
  "held7 = \<lparr>url = ''http://a-7'', lineNumber = 2, position = 3, timestamp = 1\<rparr>"

definition queued7 :: ProcessingTask where
  "queued7 = \<lparr>url = ''http://a'', lineNumber = 7, position = 2, timestamp = 3\<rparr>"

definition sameKeyRun :: "event list" where
  "sameKeyRun =
     [Edit [''0'', ''1'', ''go http://a-7'', ''3'', ''4'', ''5'', ''6'', ''x http://a''],
      Enqueue [held7], Resolved 0 2, Paused 0, Enqueue [queued7], Tick 1002, RetryNext True]"

text \<open>The strings that \<open>\.(html|php|aspx?)\<close> matches without regard to letter case.\<close>

definition isExt :: "string \<Rightarrow> bool" where
  "isExt s = (map lowerASCII s \<in> set [''.html'', ''.php'', ''.aspx'', ''.asp''])"

text \<open>The plugin with the sample task queued and its resolution awaiting the resolver.\<close>

definition awaiting :: sys where
  "awaiting =
     \<lparr>engine = initial\<lparr>processingUrls := {''https://example.com/cool-page-0-4-1''}, isProcessing := True\<rparr>,
      drainers = [Resolving ''https://example.com/cool-page-0-4-1'' coolPage], retrier = Sleeping\<rparr>"

text \<open>
  The state after the sample task has been queued and its resolution has come back
  with a title.
\<close>

definition enriched :: sys where
  "enriched =
     \<lparr>engine = initial\<lparr>urlCache := [(''https://example.com/cool-page'', ''Cool Page Title'')],
        isProcessing := True,
        document := [''see [Cool Page Title](https://example.com/cool-page) for info''],
        network := \<lparr>calls = 1, slept = []\<rparr>\<rparr>,
      drainers = [Pausing], retrier = Sleeping\<rparr>"




text \<open>A sample of 1001 distinct URLs, each with the title \<open>t\<close>.\<close>

definition sample_urls :: "(string \<times> string) list" where
  "sample_urls = map (\<lambda>n. (''https://example.org/'' @ replicate n (CHR ''a''), ''t'')) [0..<1001]"

subsection \<open>Facts about the map operations\<close>

lemma Map_set_length: "length (Map_set m k v) \<le> Suc (length m)"
  by (induction m) auto

lemma Map_set_fresh: "k \<notin> fst ` set m \<Longrightarrow> Map_set m k v = m @ [(k, v)]"
  by (induction m) auto

lemma Map_delete_hd:
  "distinct (map fst (e # m)) \<Longrightarrow> Map_delete (e # m) (fst e) = m"
proof -
  assume d: "distinct (map fst (e # m))"
  then have "\<forall>x \<in> set m. fst x \<noteq> fst e"
    by (auto simp: image_iff)
  then have "filter (\<lambda>x. fst x \<noteq> fst e) m = m"
    by (simp add: filter_id_conv)
  then show ?thesis
    by (simp add: Map_delete_def)
qed

lemma Map_delete_hd_length: "length (Map_delete (e # m) (fst e)) \<le> length m"
  by (simp add: Map_delete_def)

lemma Map_get_set_same: "Map_get (Map_set m k v) k = Some v"
  by (induction m) auto

subsection \<open>Facts about the cache\<close>

lemma updateCache_bound:
  assumes "length c \<le> MAX_CACHE_SIZE"
  shows "length (updateCache c u t) \<le> MAX_CACHE_SIZE"
proof (cases "length c \<ge> MAX_CACHE_SIZE")
  case True
  then obtain e m where c: "c = e # m"
    by (cases c) (auto simp: MAX_CACHE_SIZE_def)
  have "length (Map_set (Map_delete c (fst e)) u t) \<le> Suc (length (Map_delete c (fst e)))"
    by (rule Map_set_length)
  also have "\<dots> \<le> Suc (length m)"
    using Map_delete_hd_length [of e m] c by simp
  finally show ?thesis
    using assms c True by (simp add: updateCache_def)
next
  case False
  then show ?thesis
    using Map_set_length [of c u t] by (simp add: updateCache_def)
qed

lemma inserts_bound:
  "length c \<le> MAX_CACHE_SIZE \<Longrightarrow> length (inserts c kvs) \<le> MAX_CACHE_SIZE"
  unfolding inserts_def
  by (induction kvs arbitrary: c) (simp_all add: updateCache_bound)

lemma updateCache_fresh_room:
  assumes "u \<notin> fst ` set c" "length c < MAX_CACHE_SIZE"
  shows "updateCache c u t = c @ [(u, t)]"
  using assms by (simp add: updateCache_def Map_set_fresh)

lemma updateCache_fresh_full:
  assumes "u \<notin> fst ` set (e # m)" "distinct (map fst (e # m))"
    "length (e # m) = MAX_CACHE_SIZE"
  shows "updateCache (e # m) u t = m @ [(u, t)]"
proof -
  have "Map_delete (e # m) (fst e) = m"
    using assms(2) by (rule Map_delete_hd)
  moreover have "u \<notin> fst ` set m"
    using assms(1) by auto
  ultimately show ?thesis
    using assms(3) by (simp add: updateCache_def Map_set_fresh del: Map_set.simps)
qed

lemma inserts_fifo:
  assumes "distinct (map fst (c @ kvs))" "length c \<le> MAX_CACHE_SIZE"
  shows "inserts c kvs = drop (length (c @ kvs) - MAX_CACHE_SIZE) (c @ kvs)"
  using assms
proof (induction kvs arbitrary: c)
  case Nil
  then show ?case by (simp add: inserts_def)
next
  case (Cons p kvs)
  obtain u t where p: "p = (u, t)" by (cases p)
  have fresh: "u \<notin> fst ` set c"
    using Cons.prems(1) p by auto
  have step: "inserts c ((u, t) # kvs) = inserts (updateCache c u t) kvs"
    by (simp add: inserts_def)
  show ?case
  proof (cases "length c < MAX_CACHE_SIZE")
    case True
    then have upd: "updateCache c u t = c @ [(u, t)]"
      using fresh by (simp add: updateCache_fresh_room)
    have "inserts (c @ [(u, t)]) kvs
        = drop (length ((c @ [(u, t)]) @ kvs) - MAX_CACHE_SIZE) ((c @ [(u, t)]) @ kvs)"
      using Cons.prems True p by (intro Cons.IH) auto
    then show ?thesis
      by (simp add: step upd p)
  next
    case False
    then have full: "length c = MAX_CACHE_SIZE"
      using Cons.prems(2) by simp
    then obtain e m where c: "c = e # m"
      by (cases c) (auto simp: MAX_CACHE_SIZE_def)
    have upd: "updateCache c u t = m @ [(u, t)]"
      unfolding c using fresh Cons.prems(1) full c
      by (intro updateCache_fresh_full) auto
    have ih: "inserts (m @ [(u, t)]) kvs
        = drop (length ((m @ [(u, t)]) @ kvs) - MAX_CACHE_SIZE) ((m @ [(u, t)]) @ kvs)"
      using Cons.prems full c p by (intro Cons.IH) auto
    have len: "length ((m @ [(u, t)]) @ kvs) - MAX_CACHE_SIZE = length kvs"
      using full c by simp
    have len': "length (c @ p # kvs) - MAX_CACHE_SIZE = Suc (length kvs)"
      using full by simp
    have "inserts c (p # kvs) = inserts (m @ [(u, t)]) kvs"
      using step upd p by simp
    also have "\<dots> = drop (length kvs) ((m @ [(u, t)]) @ kvs)"
      by (simp only: ih len)
    also have "\<dots> = drop (Suc (length kvs)) (c @ p # kvs)"
      by (simp add: c p)
    finally show ?thesis
      using len' by simp
  qed
qed

text \<open>The cache in the engine: only a resolution that returns a title changes it.\<close>

lemma replace_cache: "urlCache (replaceURLWithMarkdown t lnk s) = urlCache s"
  by (simp add: replaceURLWithMarkdown_def setLine_def split: option.splits)

lemma enterBody_cache: "enterBody t s = Returned s' \<Longrightarrow> urlCache s' = urlCache s"
  by (auto simp: enterBody_def replace_cache split: option.splits if_splits)

lemma finishBody_cache:
  assumes "finishBody R t s = (r, s')" "length (urlCache s) \<le> MAX_CACHE_SIZE"
  shows "length (urlCache s') \<le> MAX_CACHE_SIZE"
  using assms
  by (auto simp: finishBody_def replace_cache updateCache_bound split: prod.splits sum.splits)

lemma addToRetryQueue_cache: "urlCache (addToRetryQueue now t s) = urlCache s"
  by (simp add: addToRetryQueue_def Let_def)

lemma loopHead_cache: "urlCache (engine (loopHead i s)) = urlCache (engine s)"
proof (cases "processingQueue (engine s)")
  case Nil
  then show ?thesis by (simp add: loopHead_def)
next
  case (Cons t rest)
  let ?m = "(engine s)\<lparr>processingQueue := rest,
      processingUrls := insert (inflightKey t) (processingUrls (engine s))\<rparr>"
  show ?thesis
  proof (cases "enterBody t ?m")
    case (Returned e')
    then show ?thesis
      using Cons enterBody_cache [OF Returned] by (simp add: loopHead_def Let_def)
  next
    case Awaiting
    then show ?thesis
      using Cons by (simp add: loopHead_def Let_def)
  qed
qed

lemma passHead_cache: "urlCache (engine (passHead editor due s)) = urlCache (engine s)"
proof (cases due)
  case Nil
  then show ?thesis by (simp add: passHead_def)
next
  case (Cons p rest)
  obtain key item where p: "p = (key, item)" by (cases p)
  let ?m = "(engine s)\<lparr>processingUrls := insert key (processingUrls (engine s))\<rparr>"
  show ?thesis
  proof (cases "enterBody (task item) ?m")
    case (Returned e')
    then show ?thesis
      using Cons p enterBody_cache [OF Returned] by (simp add: passHead_def Let_def)
  next
    case Awaiting
    then show ?thesis
      using Cons p by (simp add: passHead_def Let_def)
  qed
qed

lemma step_cache:
  assumes "length (urlCache (engine s)) \<le> MAX_CACHE_SIZE" "step R ev s = Some s'"
  shows "length (urlCache (engine s')) \<le> MAX_CACHE_SIZE"
proof (cases ev)
  case (Enqueue tasks)
  then show ?thesis
    using assms by (auto simp: Let_def loopHead_cache enqueue_def split: if_splits)
next
  case (Edit d)
  then show ?thesis
    using assms by auto
next
  case (Resolved i now)
  then have i: "i < length (drainers s)"
    using assms(2) by (simp split: if_splits)
  obtain key t where d: "drainers s ! i = Resolving key t"
    using assms(2) Resolved i by (cases "drainers s ! i") simp_all
  obtain r e where f: "finishBody R t (engine s) = (r, e)"
    by (cases "finishBody R t (engine s)")
  have "length (urlCache e) \<le> MAX_CACHE_SIZE"
    using f assms(1) by (rule finishBody_cache)
  then show ?thesis
    using assms(2) Resolved i d f
    by (auto simp: Let_def addToRetryQueue_cache split: option.splits exn.splits if_splits)
next
  case (Paused i)
  then show ?thesis
    using assms by (auto simp: loopHead_cache split: if_splits drainer.splits)
next
  case (Tick now)
  then show ?thesis
    using assms by (auto split: retrier.splits)
next
  case (RetryNext editor)
  then show ?thesis
    using assms by (auto simp: passHead_cache split: retrier.splits)
next
  case RetryResolved
  then obtain key item rest where rt: "retrier s = Retrying key item rest"
    using assms(2) by (cases "retrier s") simp_all
  obtain r e where f: "finishBody R (task item) (engine s) = (r, e)"
    by (cases "finishBody R (task item) (engine s)")
  have "length (urlCache e) \<le> MAX_CACHE_SIZE"
    using f assms(1) by (rule finishBody_cache)
  then show ?thesis
    using assms(2) RetryResolved rt f by (auto simp: Let_def split: option.splits if_splits)
qed

lemma run_cache:
  "length (urlCache (engine s)) \<le> MAX_CACHE_SIZE \<Longrightarrow> run R es s = Some s' \<Longrightarrow>
   length (urlCache (engine s')) \<le> MAX_CACHE_SIZE"
proof (induction es arbitrary: s)
  case Nil
  then show ?case by simp
next
  case (Cons e es)
  then obtain s1 where s1: "step R e s = Some s1" "run R es s1 = Some s'"
    by (auto split: option.splits)
  have "length (urlCache (engine s1)) \<le> MAX_CACHE_SIZE"
    using Cons.prems(1) s1(1) by (rule step_cache)
  then show ?case
    using s1(2) by (rule Cons.IH)
qed

lemma reachable_cache: "reachable R s \<Longrightarrow> length (urlCache (engine s)) \<le> 1000"
proof -
  assume "reachable R s"
  then obtain es where "run R es loaded = Some s"
    unfolding reachable_def by blast
  moreover have "length (urlCache (engine loaded)) \<le> MAX_CACHE_SIZE"
    by (simp add: loaded_def initial_def)
  ultimately have "length (urlCache (engine s)) \<le> MAX_CACHE_SIZE"
    using run_cache by blast
  then show ?thesis
    by (simp add: MAX_CACHE_SIZE_def)
qed

lemma enriched_run: "run titled [Enqueue [coolPage], Resolved 0 5] loaded = Some enriched"
  by code_simp

subsection \<open>C4: the cache is bounded and evicts in insertion order\<close>

text \<open>
  C4. Starting from the empty cache, no run of \<open>updateCache\<close> calls makes the cache
  larger than 1000 entries; in every state that the plugin reaches from \<open>onload\<close>,
  with any title resolver, the cache holds at most 1000 entries; and after inserting
  1001 distinct URLs the cache holds exactly the last 1000 of them, in insertion
  order: the first URL inserted is the one evicted.
\<close>

theorem C4_cache_bounded_fifo:
  "length (inserts [] kvs) \<le> 1000 \<and>
   (reachable R s \<longrightarrow> length (urlCache (engine s)) \<le> 1000) \<and>
   (distinct (map fst kvs) \<longrightarrow> length kvs = 1001 \<longrightarrow>
      inserts [] kvs = tl kvs \<and> length (inserts [] kvs) = 1000 \<and>
      Map_get (inserts [] kvs) (fst (hd kvs)) = None)"
proof -
  have bound: "length (inserts [] kvs) \<le> 1000"
    using inserts_bound [of "[]" kvs] by (simp add: MAX_CACHE_SIZE_def)
  have engine: "length (urlCache (engine s)) \<le> 1000" if "reachable R s"
    using that by (rule reachable_cache)
  have fifo: "inserts [] kvs = tl kvs \<and> length (inserts [] kvs) = 1000 \<and>
      Map_get (inserts [] kvs) (fst (hd kvs)) = None"
    if d: "distinct (map fst kvs)" and l: "length kvs = 1001"
  proof -
    have "inserts [] kvs = drop (length kvs - MAX_CACHE_SIZE) kvs"
      using inserts_fifo [of "[]" kvs] d by simp
    then have eq: "inserts [] kvs = tl kvs"
      using l by (simp add: MAX_CACHE_SIZE_def drop_Suc)
    obtain e m where kvs: "kvs = e # m"
      using l by (cases kvs) auto
    have "fst e \<notin> fst ` set m"
      using d kvs by auto
    then have "Map_get m (fst e) = None"
      by (induction m) auto
    then show ?thesis
      using eq l kvs by simp
  qed
  show ?thesis
    using bound engine fifo by blast
qed

theorem C4_cache_bounded_fifo_witness:
  "distinct (map fst sample_urls) \<and> length sample_urls = 1001 \<and>
   inserts [] sample_urls = tl sample_urls \<and> length (inserts [] sample_urls) = 1000 \<and>
   Map_get (inserts [] sample_urls) ''https://example.org/'' = None \<and>
   reachable titled enriched \<and> length (urlCache (engine enriched)) \<le> 1000"
proof -
  have d: "distinct (map fst sample_urls)"
    unfolding sample_urls_def map_map
  proof (rule iffD2 [OF distinct_map], rule conjI [OF distinct_upt], rule inj_onI)
    fix x y :: nat
    assume "(fst \<circ> (\<lambda>n. (''https://example.org/'' @ replicate n (CHR ''a''), ''t''))) x
          = (fst \<circ> (\<lambda>n. (''https://example.org/'' @ replicate n (CHR ''a''), ''t''))) y"
    then have "replicate x (CHR ''a'') = replicate y (CHR ''a'')"
      by simp
    then have "length (replicate x (CHR ''a'')) = length (replicate y (CHR ''a''))"
      by (rule arg_cong)
    then show "x = y"
      by simp
  qed
  have l: "length sample_urls = 1001"
    unfolding sample_urls_def length_map length_upt by simp
  have "[0..<1001] = 0 # [Suc 0..<1001]"
    by (rule upt_conv_Cons) simp
  then have h: "fst (hd sample_urls) = ''https://example.org/''"
    unfolding sample_urls_def
    by (simp only: list.map list.sel fst_conv replicate.simps append_Nil2)
  have r: "reachable titled enriched"
    unfolding reachable_def using enriched_run by blast
  have "(inserts [] sample_urls = tl sample_urls \<and> length (inserts [] sample_urls) = 1000 \<and>
      Map_get (inserts [] sample_urls) (fst (hd sample_urls)) = None) \<and>
      length (urlCache (engine enriched)) \<le> 1000"
    using C4_cache_bounded_fifo [of sample_urls titled enriched] d l r by blast
  then show ?thesis
    unfolding h using d l r by blast
qed

subsection \<open>Facts about the string operations\<close>

lemma indexOfFrom_range: "indexOfFrom xs p k = - 1 \<or> int k \<le> indexOfFrom xs p k"
  by (induction xs p k rule: indexOfFrom.induct) auto

lemma indexOfFrom_here: "indexOfFrom xs p k = int k \<longleftrightarrow> startsWith xs p"
proof (cases xs)
  case Nil
  then show ?thesis by (auto simp: startsWith_def)
next
  case (Cons c cs)
  have "indexOfFrom cs p (Suc k) \<noteq> int k"
    using indexOfFrom_range [of cs p "Suc k"] by auto
  then show ?thesis
    using Cons by simp
qed

lemma indexOf_at: "indexOf l u p = int p \<longleftrightarrow> p \<le> length l \<and> startsWith (drop p l) u"
proof (cases "p \<le> length l")
  case True
  then show ?thesis
    by (simp add: indexOf_def min_def indexOfFrom_here)
next
  case False
  then have "indexOf l u p = indexOfFrom [] u (length l)"
    by (simp add: indexOf_def min_def)
  then show ?thesis
    using False by auto
qed

subsection \<open>Facts about the per-task pipeline\<close>

lemma updateCache_get: "Map_get (updateCache c u T) u = Some T"
  by (simp add: updateCache_def Let_def Map_get_set_same)

lemma getLine_setLine:
  "getLine s n = Some l \<Longrightarrow> getLine (setLine s n l') n = Some l'"
  by (auto simp: getLine_def setLine_def split: if_splits)

lemma getLine_document: "document s' = document s \<Longrightarrow> getLine s' n = getLine s n"
  by (simp add: getLine_def)

lemma getLine_update:
  "getLine (s\<lparr>processingUrls := X\<rparr>) n = getLine s n"
  "getLine (s\<lparr>network := N\<rparr>) n = getLine s n"
  "getLine (s\<lparr>urlCache := C\<rparr>) n = getLine s n"
  "getLine (s\<lparr>retryQueue := Q\<rparr>) n = getLine s n"
  "getLine (s\<lparr>failures := F\<rparr>) n = getLine s n"
  "getLine (s\<lparr>processingQueue := W\<rparr>) n = getLine s n"
  "getLine (s\<lparr>isProcessing := b\<rparr>) n = getLine s n"
  by (simp_all add: getLine_def)

lemma setLine_fields:
  "urlCache (setLine s n l) = urlCache s" "network (setLine s n l) = network s"
  "processingUrls (setLine s n l) = processingUrls s" "retryQueue (setLine s n l) = retryQueue s"
  by (simp_all add: setLine_def)

lemma replace_line:
  assumes "getLine s (lineNumber t) = Some l" "l \<noteq> []"
  shows "replaceURLWithMarkdown t lnk s =
         setLine s (lineNumber t) (take (position t) l @ lnk @ drop (position t + length (url t)) l)"
  using assms by (simp add: replaceURLWithMarkdown_def)

lemma replace_fields:
  "urlCache (replaceURLWithMarkdown t lnk s) = urlCache s"
  "network (replaceURLWithMarkdown t lnk s) = network s"
  by (simp_all add: replaceURLWithMarkdown_def setLine_fields split: option.splits)

lemma written:
  assumes "getLine s (lineNumber t) = Some l" "l \<noteq> []"
  shows "getLine ((replaceURLWithMarkdown t lnk s)\<lparr>processingUrls := X\<rparr>) (lineNumber t)
       = Some (take (position t) l @ lnk @ drop (position t + length (url t)) l)"
proof -
  have "getLine ((replaceURLWithMarkdown t lnk s)\<lparr>processingUrls := X\<rparr>) (lineNumber t)
      = getLine (replaceURLWithMarkdown t lnk s) (lineNumber t)"
    by (rule getLine_document) simp
  also have "\<dots> = Some (take (position t) l @ lnk @ drop (position t + length (url t)) l)"
    unfolding replace_line [OF assms] using assms(1) by (rule getLine_setLine)
  finally show ?thesis .
qed

lemma body_stale:
  assumes "getLine s (lineNumber t) = None \<or>
           (\<exists>l. getLine s (lineNumber t) = Some l \<and>
                take (length (url t)) (drop (position t) l) \<noteq> url t)"
  shows "processBody R t s = (None, s)"
  using assms
  by (auto simp: processBody_def indexOf_at startsWith_def split: option.splits)

lemma body_hit:
  assumes "getLine s (lineNumber t) = Some l" "l \<noteq> []"
    "indexOf l (url t) (position t) = int (position t)"
    "Map_get (urlCache s) (url t) = Some T"
  shows "processBody R t s = (None, replaceURLWithMarkdown t (''['' @ T @ '']('' @ url t @ '')'') s)"
  using assms by (simp add: processBody_def)

lemma body_miss:
  assumes "getLine s (lineNumber t) = Some l" "l \<noteq> []"
    "indexOf l (url t) (position t) = int (position t)"
    "Map_get (urlCache s) (url t) = None" "R (url t) (network s) = (Inr T, n)"
  shows "processBody R t s = (None, replaceURLWithMarkdown t (''['' @ T @ '']('' @ url t @ '')'')
            (s\<lparr>network := n, urlCache := updateCache (urlCache s) (url t) T\<rparr>))"
  using assms by (simp add: processBody_def)

lemma processURL_body:
  "processBody R t (s\<lparr>processingUrls := insert key (processingUrls s)\<rparr>) = (r, s') \<Longrightarrow>
   processURL R t key s = (r, s'\<lparr>processingUrls := processingUrls s' - {key}\<rparr>)"
  by (simp add: processURL_def)

subsection \<open>C8: a second resolution is served from the cache\<close>

text \<open>
  C8. Where the line still shows the URL at the task's position: a resolution that
  misses the cache and whose resolver answers \<open>T\<close> leaves \<open>T\<close> in the cache under the
  URL and writes the link with \<open>T\<close>; a resolution that finds \<open>T\<close> in the cache under
  the URL writes the link with the same \<open>T\<close> and leaves the network log and the
  cache as they were, whatever the resolver is: the resolver is not called.
\<close>

theorem C8_second_resolution_from_cache:
  assumes line: "getLine s (lineNumber t) = Some l" "l \<noteq> []"
    and pos: "indexOf l (url t) (position t) = int (position t)"
  shows "(Map_get (urlCache s) (url t) = None \<longrightarrow> R (url t) (network s) = (Inr T, n) \<longrightarrow>
            fst (processURL R t key s) = None \<and>
            Map_get (urlCache (snd (processURL R t key s))) (url t) = Some T \<and>
            getLine (snd (processURL R t key s)) (lineNumber t) =
              Some (take (position t) l @ (''['' @ T @ '']('' @ url t @ '')'')
                    @ drop (position t + length (url t)) l)) \<and>
         (Map_get (urlCache s) (url t) = Some T \<longrightarrow>
            fst (processURL R t key s) = None \<and>
            network (snd (processURL R t key s)) = network s \<and>
            urlCache (snd (processURL R t key s)) = urlCache s \<and>
            getLine (snd (processURL R t key s)) (lineNumber t) =
              Some (take (position t) l @ (''['' @ T @ '']('' @ url t @ '')'')
                    @ drop (position t + length (url t)) l))"
proof (intro conjI impI)
  let ?s = "s\<lparr>processingUrls := insert key (processingUrls s)\<rparr>"
  let ?lnk = "''['' @ T @ '']('' @ url t @ '')''"
  have gl: "getLine ?s (lineNumber t) = Some l"
    using line(1) by (simp add: getLine_update)
  {
    assume m: "Map_get (urlCache s) (url t) = None" and r: "R (url t) (network s) = (Inr T, n)"
    let ?s1 = "?s\<lparr>network := n, urlCache := updateCache (urlCache ?s) (url t) T\<rparr>"
    have gl1: "getLine ?s1 (lineNumber t) = Some l"
      using line(1) by (simp add: getLine_update)
    have "processBody R t ?s = (None, replaceURLWithMarkdown t ?lnk ?s1)"
      using gl line(2) pos by (rule body_miss) (simp_all add: m r)
    then have p: "processURL R t key s = (None, (replaceURLWithMarkdown t ?lnk ?s1)\<lparr>processingUrls :=
         processingUrls (replaceURLWithMarkdown t ?lnk ?s1) - {key}\<rparr>)"
      by (rule processURL_body)
    show "fst (processURL R t key s) = None"
      by (simp add: p)
    show "Map_get (urlCache (snd (processURL R t key s))) (url t) = Some T"
      by (simp add: p replace_fields updateCache_get)
    show "getLine (snd (processURL R t key s)) (lineNumber t) =
              Some (take (position t) l @ ?lnk @ drop (position t + length (url t)) l)"
      unfolding p snd_conv using gl1 line(2) by (rule written)
  }
  {
    assume c: "Map_get (urlCache s) (url t) = Some T"
    have "processBody R t ?s = (None, replaceURLWithMarkdown t ?lnk ?s)"
      using gl line(2) pos by (rule body_hit) (simp add: c)
    then have p: "processURL R t key s = (None, (replaceURLWithMarkdown t ?lnk ?s)\<lparr>processingUrls :=
         processingUrls (replaceURLWithMarkdown t ?lnk ?s) - {key}\<rparr>)"
      by (rule processURL_body)
    show "fst (processURL R t key s) = None"
      by (simp add: p)
    show "network (snd (processURL R t key s)) = network s"
      by (simp add: p replace_fields)
    show "urlCache (snd (processURL R t key s)) = urlCache s"
      by (simp add: p replace_fields)
    show "getLine (snd (processURL R t key s)) (lineNumber t) =
              Some (take (position t) l @ ?lnk @ drop (position t + length (url t)) l)"
      unfolding p snd_conv using gl line(2) by (rule written)
  }
qed

theorem C8_second_resolution_from_cache_witness:
  "getLine initial (lineNumber coolPage) = Some ''see https://example.com/cool-page for info'' \<and>
   indexOf ''see https://example.com/cool-page for info'' (url coolPage) (position coolPage)
     = int (position coolPage) \<and>
   Map_get (urlCache initial) (url coolPage) = None \<and>
   titled (url coolPage) (network initial) = (Inr ''Cool Page Title'', \<lparr>calls = 1, slept = []\<rparr>) \<and>
   Map_get (urlCache (snd (processURL titled coolPage (inflightKey coolPage) initial))) (url coolPage)
     = Some ''Cool Page Title'' \<and>
   getLine (snd (processURL titled coolPage (inflightKey coolPage) initial)) 0
     = Some ''see [Cool Page Title](https://example.com/cool-page) for info'' \<and>
   getLine cached (lineNumber coolPage) = Some ''see https://example.com/cool-page for info'' \<and>
   Map_get (urlCache cached) (url coolPage) = Some ''Cool Page Title'' \<and>
   network (snd (processURL titled coolPage (inflightKey coolPage) cached)) = network cached \<and>
   getLine (snd (processURL titled coolPage (inflightKey coolPage) cached)) 0
     = Some ''see [Cool Page Title](https://example.com/cool-page) for info''"
proof -
  let ?l = "''see https://example.com/cool-page for info''"
  have g: "getLine initial (lineNumber coolPage) = Some ?l"
    by (simp add: getLine_def initial_def coolPage_def)
  have g': "getLine cached (lineNumber coolPage) = Some ?l"
    by (simp add: getLine_def initial_def cached_def coolPage_def)
  have ne: "?l \<noteq> []"
    by simp
  have i: "indexOf ?l (url coolPage) (position coolPage) = int (position coolPage)"
    by (simp add: coolPage_def indexOf_def startsWith_def)
  have m: "Map_get (urlCache initial) (url coolPage) = None"
    by (simp add: initial_def)
  have h: "Map_get (urlCache cached) (url coolPage) = Some ''Cool Page Title''"
    by (simp add: cached_def coolPage_def)
  have r: "titled (url coolPage) (network initial) = (Inr ''Cool Page Title'', \<lparr>calls = 1, slept = []\<rparr>)"
    by (simp add: titled_def initial_def)
  have ln: "lineNumber coolPage = 0"
    and new: "take (position coolPage) ?l @ (''['' @ ''Cool Page Title'' @ '']('' @ url coolPage @ '')'')
        @ drop (position coolPage + length (url coolPage)) ?l
      = ''see [Cool Page Title](https://example.com/cool-page) for info''"
    by (simp_all add: coolPage_def)
  show ?thesis
    using C8_second_resolution_from_cache [OF g ne i, where R = titled
        and T = "''Cool Page Title''" and n = "\<lparr>calls = 1, slept = []\<rparr>"
        and key = "inflightKey coolPage"]
      C8_second_resolution_from_cache [OF g' ne i, where R = titled
        and T = "''Cool Page Title''" and n = "\<lparr>calls = 1, slept = []\<rparr>"
        and key = "inflightKey coolPage"]
      g g' i m h r
    unfolding new ln by blast
qed

subsection \<open>C9: a stale task is abandoned\<close>

text \<open>
  C9. If the task's line is absent, or does not show the task's URL at the task's
  position, then \<open>processURL\<close> returns normally and leaves every field as it was but
  for the in-flight mark of its key, which it removes; the function queued for the
  task leaves the document, the cache, the retry queue, the network log and the list
  of reported failures as they were.
\<close>

theorem C9_stale_task_abandoned:
  assumes "getLine s (lineNumber t) = None \<or>
           (\<exists>l. getLine s (lineNumber t) = Some l \<and>
                take (length (url t)) (drop (position t) l) \<noteq> url t)"
  shows "processURL R t key s = (None, s\<lparr>processingUrls := processingUrls s - {key}\<rparr>) \<and>
         document (processingFunction R now t s) = document s \<and>
         urlCache (processingFunction R now t s) = urlCache s \<and>
         retryQueue (processingFunction R now t s) = retryQueue s \<and>
         network (processingFunction R now t s) = network s \<and>
         failures (processingFunction R now t s) = failures s"
proof -
  have body: "processBody R t (s\<lparr>processingUrls := insert k (processingUrls s)\<rparr>)
      = (None, s\<lparr>processingUrls := insert k (processingUrls s)\<rparr>)" for k
    using assms by (intro body_stale) (simp add: getLine_update)
  have p: "processURL R t k s = (None, s\<lparr>processingUrls := processingUrls s - {k}\<rparr>)" for k
    by (simp add: processURL_def body)
  show ?thesis
    by (simp add: p processingFunction_def)
qed

theorem C9_stale_task_abandoned_witness:
  "getLine initial (lineNumber coolPageMoved) = Some ''see https://example.com/cool-page for info'' \<and>
   take (length (url coolPageMoved)) (drop (position coolPageMoved)
     ''see https://example.com/cool-page for info'') = ''see https://example.com/cool-'' \<and>
   url coolPageMoved = ''https://example.com/cool-page'' \<and>
   processURL titled coolPageMoved (inflightKey coolPageMoved) initial
     = (None, initial\<lparr>processingUrls := processingUrls initial - {inflightKey coolPageMoved}\<rparr>) \<and>
   document (processingFunction titled 5 coolPageMoved initial) = document initial \<and>
   retryQueue (processingFunction titled 5 coolPageMoved initial) = retryQueue initial"
proof -
  have h: "getLine initial (lineNumber coolPageMoved) = None \<or>
    (\<exists>l. getLine initial (lineNumber coolPageMoved) = Some l \<and>
         take (length (url coolPageMoved)) (drop (position coolPageMoved) l) \<noteq> url coolPageMoved)"
    by (simp add: getLine_def initial_def coolPageMoved_def)
  have g: "getLine initial (lineNumber coolPageMoved) = Some ''see https://example.com/cool-page for info''"
    "take (length (url coolPageMoved)) (drop (position coolPageMoved)
       ''see https://example.com/cool-page for info'') = ''see https://example.com/cool-''"
    "url coolPageMoved = ''https://example.com/cool-page''"
    by (simp_all add: getLine_def initial_def coolPageMoved_def)
  show ?thesis
    using C9_stale_task_abandoned [OF h, where R = titled
        and key = "inflightKey coolPageMoved" and now = 5] g by blast
qed

subsection \<open>C10: a line of at most ten characters is not scanned\<close>

text \<open>
  C10. When the line under the cursor has at most ten characters, the callback of
  \<open>handleChange\<close> returns with the state as it was: no task is made and nothing is
  queued. The line \<open>http://a.b\<close> has ten characters and the matcher finds its URL.
\<close>

theorem C10_short_line_not_enriched:
  "(getLine s line = Some l \<longrightarrow> length l \<le> 10 \<longrightarrow>
      handleChangeCallback R now line s = (None, s)) \<and>
   length ''http://a.b'' = 10 \<and>
   findURLsInText ''http://a.b'' = [\<lparr>murl = ''http://a.b'', mindex = 0\<rparr>]"
proof -
  have "findURLsInText ''http://a.b'' = [\<lparr>murl = ''http://a.b'', mindex = 0\<rparr>]"
    by code_simp
  then show ?thesis
    by (simp add: handleChangeCallback_def)
qed

theorem C10_short_line_not_enriched_witness:
  "getLine shortLine 0 = Some ''http://a.b'' \<and> length ''http://a.b'' \<le> 10 \<and>
   handleChangeCallback titled 5 0 shortLine = (None, shortLine)"
proof -
  have g: "getLine shortLine 0 = Some ''http://a.b''"
    by (simp add: getLine_def shortLine_def initial_def)
  show ?thesis
    using C10_short_line_not_enriched [where s = shortLine and line = 0
        and l = "''http://a.b''" and R = titled and now = 5] g by simp
qed

subsection \<open>Facts about the title resolver\<close>

lemma attemptBody_returns: "\<exists>t. attemptBody P u k = Inr t"
  by (simp add: attemptBody_def split: sum.splits option.splits)

lemma retryLoop_first:
  "\<exists>t. retryLoop P u m d 0 n = (Inr t, n\<lparr>calls := Suc (calls n)\<rparr>) \<and>
       attemptBody P u (calls n) = Inr t"
proof -
  obtain t where "attemptBody P u (calls n) = Inr t"
    using attemptBody_returns by blast
  then show ?thesis
    by (subst retryLoop.simps) simp
qed

lemma attemptBody_rejected:
  "fetch P k u = Rejected m \<Longrightarrow> attemptBody P u k = Inr (getTitleFromURL P u)"
  by (simp add: attemptBody_def directFetch_def)

lemma defaultResolver_returns: "\<exists>t n'. defaultResolver P u n = (Inr t, n')"
proof (cases "oEmbed P u (calls n)")
  case None
  then show ?thesis
    using retryLoop_first [of P u 3 1000 "n\<lparr>calls := Suc (calls n)\<rparr>"]
    by (auto simp: defaultResolver_def fetchPageTitleWithRetry_def)
next
  case (Some t)
  then show ?thesis
    by (simp add: defaultResolver_def fetchPageTitleWithRetry_def)
qed


subsection \<open>C1: the resolver absorbs a rejected fetch\<close>

text \<open>
  C1, as the code has it. For every URL and every behaviour of the host,
  \<open>fetchPageTitleWithRetry\<close> returns a title, never an exception, and sleeps no
  backoff delay. If the embed tier yields nothing and the first direct fetch
  rejects, it returns the URL-derived title after that one attempt: two calls of
  \<open>fetch\<close> in all.
\<close>

theorem C1_resolver_never_throws:
  "(\<exists>t. fst (fetchPageTitleWithRetry P u maxRetries delay n) = Inr t) \<and>
   slept (snd (fetchPageTitleWithRetry P u maxRetries delay n)) = slept n \<and>
   (oEmbed P u (calls n) = None \<longrightarrow> fetch P (Suc (calls n)) u = Rejected m \<longrightarrow>
      fetchPageTitleWithRetry P u maxRetries delay n
        = (Inr (getTitleFromURL P u), n\<lparr>calls := calls n + 2\<rparr>))"
proof (cases "oEmbed P u (calls n)")
  case (Some t)
  then show ?thesis
    by (simp add: fetchPageTitleWithRetry_def)
next
  case None
  let ?n = "n\<lparr>calls := Suc (calls n)\<rparr>"
  obtain t where t: "retryLoop P u maxRetries delay 0 ?n = (Inr t, ?n\<lparr>calls := Suc (calls ?n)\<rparr>)"
    and b: "attemptBody P u (calls ?n) = Inr t"
    using retryLoop_first [of P u maxRetries delay ?n] by blast
  have "t = getTitleFromURL P u" if "fetch P (Suc (calls n)) u = Rejected m"
    using attemptBody_rejected [of P "Suc (calls n)" u m] that b by simp
  then show ?thesis
    using None t by (auto simp: fetchPageTitleWithRetry_def)
qed

theorem C1_resolver_never_throws_witness:
  "oEmbed offline ''https://example.org/My_Report.html'' 0 = None \<and>
   fetch offline 1 ''https://example.org/My_Report.html'' = Rejected ''Failed to fetch'' \<and>
   fetchPageTitleWithRetry offline ''https://example.org/My_Report.html'' 3 1000 \<lparr>calls = 0, slept = []\<rparr>
     = (Inr (getTitleFromURL offline ''https://example.org/My_Report.html''), \<lparr>calls = 2, slept = []\<rparr>)"
proof -
  have o: "oEmbed offline ''https://example.org/My_Report.html'' (calls \<lparr>calls = 0, slept = []\<rparr>) = None"
    by (simp add: oEmbed_def offline_def)
  have f: "fetch offline (Suc (calls \<lparr>calls = 0, slept = []\<rparr>)) ''https://example.org/My_Report.html''
      = Rejected ''Failed to fetch''"
    by (simp add: offline_def)
  show ?thesis
    using C1_resolver_never_throws [where P = offline and u = "''https://example.org/My_Report.html''"
        and n = "\<lparr>calls = 0, slept = []\<rparr>" and m = "''Failed to fetch''"
        and maxRetries = 3 and delay = 1000] o f
    by simp
qed

text \<open>
  Against C1 as stated: with the host off line, every direct fetch of
  \<open>https://example.org/My_Report.html\<close> would reject, and yet the call with the
  default three retries and delay 1000 returns the fallback title after one attempt,
  having slept nothing.
\<close>

theorem C1_offline_returns_fallback:
  "fetch offline 1 ''https://example.org/My_Report.html'' = Rejected ''Failed to fetch'' \<and>
   fetch offline 2 ''https://example.org/My_Report.html'' = Rejected ''Failed to fetch'' \<and>
   fetch offline 3 ''https://example.org/My_Report.html'' = Rejected ''Failed to fetch'' \<and>
   fetch offline 4 ''https://example.org/My_Report.html'' = Rejected ''Failed to fetch'' \<and>
   fetchPageTitleWithRetry offline ''https://example.org/My_Report.html'' 3 1000 \<lparr>calls = 0, slept = []\<rparr>
     = (Inr ''My Report'', \<lparr>calls = 2, slept = []\<rparr>)"
proof -
  have "fetchPageTitleWithRetry offline ''https://example.org/My_Report.html'' 3 1000 \<lparr>calls = 0, slept = []\<rparr>
     = (Inr ''My Report'', \<lparr>calls = 2, slept = []\<rparr>)"
    by code_simp
  then show ?thesis
    by (simp add: offline_def)
qed

subsection \<open>Facts about the retry queue\<close>

lemma addToRetryQueue_counts:
  "Map_get (retryQueue s) (retryKey t) = None \<Longrightarrow>
     Map_get (retryQueue (addToRetryQueue now t s)) (retryKey t)
       = Some \<lparr>task = t, retries = 1, nextRetry = now + 1000\<rparr>"
  "Map_get (retryQueue s) (retryKey t) = Some e \<Longrightarrow> retries e < 3 \<Longrightarrow>
     Map_get (retryQueue (addToRetryQueue now t s)) (retryKey t)
       = Some \<lparr>task = t, retries = retries e + 1, nextRetry = now + 2 ^ retries e * 1000\<rparr>"
  "Map_get (retryQueue s) (retryKey t) = Some e \<Longrightarrow> 3 \<le> retries e \<Longrightarrow>
     addToRetryQueue now t s = s"
  by (simp_all add: addToRetryQueue_def Let_def Map_get_set_same)

lemma afterFailure_eq:
  "afterFailure = initial\<lparr>retryQueue := held, network := \<lparr>calls = 1, slept = []\<rparr>,
      failures := [''https://example.com/cool-page'']\<rparr>"
  unfolding afterFailure_def held_def by code_simp

lemma pass_step:
  "processRetryQueue failing True now (afterFailure\<lparr>network := \<lparr>calls = c, slept = []\<rparr>\<rparr>)
     = afterFailure\<lparr>network := \<lparr>calls = (if 1005 \<le> now then Suc c else c), slept = []\<rparr>\<rparr>"
  unfolding afterFailure_eq
  by (simp add: processRetryQueue_def held_def processURL_def processBody_def getLine_def
      initial_def coolPage_def indexOf_def startsWith_def failing_def)

lemma passes:
  "retryPasses failing ticks (afterFailure\<lparr>network := \<lparr>calls = c, slept = []\<rparr>\<rparr>)
     = afterFailure\<lparr>network := \<lparr>calls = c + length (filter (\<lambda>now. 1005 \<le> now) ticks), slept = []\<rparr>\<rparr>"
  unfolding retryPasses_def
  by (induction ticks arbitrary: c) (simp_all add: pass_step)

text \<open>
  With a resolver that throws \<open>Failed to fetch\<close> on every call, which the resolver of
  the source never does: the queued function fails at time 5 and \<open>addToRetryQueue\<close>
  files the task with \<open>retries = 1\<close> and \<open>nextRetry = 1005\<close>; after any passes of
  \<open>processRetryQueue\<close> the entry is there as it was filed, and the resolver has been
  called once more for every pass at or after 1005.
\<close>

lemma retry_pass_keeps_item:
  "retryQueue (retryPasses failing ticks afterFailure)
     = [(retryKey coolPage, \<lparr>task = coolPage, retries = 1, nextRetry = 1005\<rparr>)] \<and>
   calls (network (retryPasses failing ticks afterFailure))
     = Suc (length (filter (\<lambda>now. 1005 \<le> now) ticks))"
proof -
  have a: "afterFailure = afterFailure\<lparr>network := \<lparr>calls = 1, slept = []\<rparr>\<rparr>"
    by (simp add: afterFailure_eq)
  have k: "retryKey coolPage = ''https://example.com/cool-page-0-4''"
    by code_simp
  have "retryPasses failing ticks afterFailure
     = afterFailure\<lparr>network := \<lparr>calls = 1 + length (filter (\<lambda>now. 1005 \<le> now) ticks), slept = []\<rparr>\<rparr>"
    by (subst a) (rule passes)
  then show ?thesis
    by (simp add: afterFailure_eq held_def k)
qed

subsection \<open>Facts about the keys\<close>







subsection \<open>Facts about the deduplication\<close>








subsection \<open>Facts about the queue loop\<close>













subsection \<open>C5: of two tasks for one URL on one line, the earlier position is processed\<close>



subsection \<open>Facts about the matcher\<close>

lemma execLoop_sound:
  "m \<in> set (execLoop str i) \<Longrightarrow>
     i \<le> mindex m \<and> mindex m < length str \<and>
     (\<exists>n. matchAt str (mindex m) = Some n \<and> murl m = trim (take n (drop (mindex m) str)))"
proof (induction str i rule: execLoop.induct)
  case (1 str i)
  show ?case
  proof (cases "length str \<le> i")
    case True
    then show ?thesis
      using "1.prems" by (subst (asm) execLoop.simps) simp
  next
    case False
    show ?thesis
    proof (cases "matchAt str i")
      case None
      then have "m \<in> set (execLoop str (Suc i))"
        using "1.prems" False by (subst (asm) execLoop.simps) simp
      then show ?thesis
        using "1.IH"(1) [OF False None] by auto
    next
      case (Some n)
      then have "m = \<lparr>murl = trim (take n (drop i str)), mindex = i\<rparr> \<or> m \<in> set (execLoop str (i + n))"
        using "1.prems" False by (subst (asm) execLoop.simps) simp
      then show ?thesis
      proof
        assume "m = \<lparr>murl = trim (take n (drop i str)), mindex = i\<rparr>"
        then show ?thesis
          using Some False by simp
      next
        assume "m \<in> set (execLoop str (i + n))"
        then show ?thesis
          using "1.IH"(2) [OF False Some] by auto
      qed
    qed
  qed
qed

lemma execLoop_complete:
  "matchAt str q = Some n \<Longrightarrow> q < length str \<Longrightarrow> i \<le> q \<Longrightarrow>
   (\<forall>j. i \<le> j \<and> j < q \<longrightarrow> (\<forall>k. matchAt str j = Some k \<longrightarrow> j + k \<le> q)) \<Longrightarrow>
   \<lparr>murl = trim (take n (drop q str)), mindex = q\<rparr> \<in> set (execLoop str i)"
proof (induction str i rule: execLoop.induct)
  case (1 str i)
  have nl: "\<not> length str \<le> i"
    using "1.prems"(2,3) by simp
  show ?case
  proof (cases "i = q")
    case True
    then show ?thesis
      using "1.prems"(1) nl by (subst execLoop.simps) simp
  next
    case False
    then have lt: "i < q"
      using "1.prems"(3) by simp
    show ?thesis
    proof (cases "matchAt str i")
      case None
      have "\<lparr>murl = trim (take n (drop q str)), mindex = q\<rparr> \<in> set (execLoop str (Suc i))"
        using "1.prems" lt by (intro "1.IH"(1) [OF nl None]) auto
      then show ?thesis
        using None nl by (subst execLoop.simps) simp
    next
      case (Some k)
      have le: "i + k \<le> q"
        using "1.prems"(4) lt Some by auto
      have "\<lparr>murl = trim (take n (drop q str)), mindex = q\<rparr> \<in> set (execLoop str (i + k))"
        using "1.prems" le by (intro "1.IH"(2) [OF nl Some]) auto
      then show ?thesis
        using Some nl by (subst execLoop.simps) simp
    qed
  qed
qed


lemma trim_length: "length (trim s) \<le> length s"
proof -
  have "length (trim s) = length (dropWhile isWhiteSpace (rev (dropWhile isWhiteSpace s)))"
    by (simp add: trim_def)
  also have "\<dots> \<le> length (rev (dropWhile isWhiteSpace s))"
    by (rule length_dropWhile_le)
  also have "\<dots> \<le> length s"
    by (simp add: length_dropWhile_le)
  finally show ?thesis .
qed

lemma trim_id:
  assumes "s \<noteq> []" "\<not> isWhiteSpace (hd s)" "\<not> isWhiteSpace (last s)"
  shows "trim s = s"
proof -
  have a: "dropWhile isWhiteSpace s = s"
    using assms(1,2) by (cases s) simp_all
  have "rev s \<noteq> []" "\<not> isWhiteSpace (hd (rev s))"
    using assms(1,3) by (simp_all add: hd_rev)
  then have "dropWhile isWhiteSpace (rev s) = rev s"
    by (cases "rev s") simp_all
  then show ?thesis
    by (simp add: trim_def a)
qed

lemma takeWhile_run:
  "list_all P xs \<Longrightarrow> ys = [] \<or> \<not> P (hd ys) \<Longrightarrow> takeWhile P (xs @ ys) = xs"
  by (induction xs) (auto simp: takeWhile_eq_Nil_iff)

lemma scheme_chars:
  "list_all isUrlChar ''https://''" "list_all isUrlChar ''http://''"
  by (simp_all add: isUrlChar_def isWhiteSpace_def)

lemma startsWith_append: "startsWith s p \<Longrightarrow> s = p @ drop (length p) s"
  unfolding startsWith_def by (metis append_take_drop_id)

lemma startsWith_extend: "startsWith u p \<Longrightarrow> startsWith (u @ post) p"
proof -
  assume "startsWith u p"
  then have "u = p @ drop (length p) u"
    by (rule startsWith_append)
  then have e: "u @ post = p @ (drop (length p) u @ post)"
    by (metis append.assoc)
  show ?thesis
    unfolding startsWith_def by (subst e) simp
qed

lemma startsWith_length: "startsWith u p \<Longrightarrow> length p \<le> length u"
  unfolding startsWith_def by (metis length_take min.cobounded1)

lemma matchBody_chars:
  assumes "matchBody s = Some n"
  shows "n \<le> length s \<and> list_all isUrlChar (take n s)"
proof -
  have run: "k + length (takeWhile isUrlChar (drop k s)) \<le> length s \<and>
             list_all isUrlChar (take (k + length (takeWhile isUrlChar (drop k s))) s)"
    if p: "startsWith s p" "list_all isUrlChar p" "length p = k" for p k
  proof -
    let ?r = "takeWhile isUrlChar (drop k s)"
    have s: "s = p @ drop k s"
      using startsWith_append [OF p(1)] p(3) by simp
    have "take (k + length ?r) (p @ drop k s) = p @ take (length ?r) (drop k s)"
      using p(3) by simp
    also have "take (length ?r) (drop k s) = ?r"
      by (rule takeWhile_eq_take [symmetric])
    finally have t: "take (k + length ?r) s = p @ ?r"
      using s by simp
    have "list_all isUrlChar ?r"
      by (simp add: list_all_iff) (meson set_takeWhileD)
    then have "list_all isUrlChar (p @ ?r)"
      using p(2) by simp
    moreover have "length (take (k + length ?r) s) = k + length ?r"
      unfolding t using p(3) by simp
    then have "k + length ?r \<le> length s"
      by simp
    ultimately show ?thesis
      using t by simp
  qed
  show ?thesis
    using assms run [of "''https://''" 8] run [of "''http://''" 7] scheme_chars
    by (auto simp: matchBody_def split: if_splits)
qed

lemma startsWith_iff: "startsWith s p \<longleftrightarrow> (\<exists>r. s = p @ r)"
proof
  assume "startsWith s p"
  then have "s = p @ drop (length p) s"
    by (rule startsWith_append)
  then show "\<exists>r. s = p @ r" ..
next
  assume "\<exists>r. s = p @ r"
  then show "startsWith s p"
    by (auto simp: startsWith_def)
qed

lemma matchBody_shaped:
  assumes "urlShaped u" "post = [] \<or> \<not> isUrlChar (hd post)"
  shows "matchBody (u @ post) = Some (length u)"
proof (cases "startsWith u ''https://''")
  case True
  then obtain r where u: "u = ''https://'' @ r"
    unfolding startsWith_iff by blast
  have r: "r \<noteq> []" "list_all isUrlChar r"
    using assms(1) True unfolding u by (simp_all add: urlShaped_def)
  have "takeWhile isUrlChar (r @ post) = r"
    using r(2) assms(2) by (rule takeWhile_run)
  then show ?thesis
    using r(1) unfolding u by (simp add: matchBody_def startsWith_def)
next
  case False
  then have "startsWith u ''http://''"
    using assms(1) by (simp add: urlShaped_def)
  then obtain r where u: "u = ''http://'' @ r"
    unfolding startsWith_iff by blast
  have r: "r \<noteq> []" "list_all isUrlChar r"
    using assms(1) False unfolding u by (simp_all add: urlShaped_def)
  have "takeWhile isUrlChar (r @ post) = r"
    using r(2) assms(2) by (rule takeWhile_run)
  then show ?thesis
    using r(1) unfolding u by (simp add: matchBody_def startsWith_def)
qed


lemma matchAt_body: "matchAt str p = Some n \<Longrightarrow> matchBody (drop p str) = Some n"
  by (simp add: matchAt_def split: if_splits)

lemma match_stops:
  assumes "matchAt str p = Some n" "e < length str" "\<not> isUrlChar (str ! e)" "p \<le> e"
  shows "p + n \<le> e"
proof (rule ccontr)
  assume "\<not> p + n \<le> e"
  then have lt: "e - p < n"
    using assms(4) by simp
  have all: "list_all isUrlChar (take n (drop p str))"
    using matchBody_chars [OF matchAt_body [OF assms(1)]] by simp
  have len: "e - p < length (take n (drop p str))"
    using lt assms(2,4) by simp
  have "take n (drop p str) ! (e - p) = str ! e"
    using lt assms(2,4) by simp
  then have "isUrlChar (str ! e)"
    using all len by (metis list_all_length)
  then show False
    using assms(3) by simp
qed

lemma lookbehind_blocks: "matchAt (pre @ ''](''  @ rest) (length pre + 2) = None"
  by (simp add: matchAt_def)

lemma no_overlap:
  assumes "pre \<noteq> []" "\<not> isUrlChar (last pre)" "j < length pre" "matchAt (pre @ rest) j = Some k"
  shows "j + k \<le> length pre"
proof -
  have "(pre @ rest) ! (length pre - 1) = last pre"
    using assms(1) by (simp add: nth_append last_conv_nth)
  then have "j + k \<le> length pre - 1"
    using assms by (intro match_stops [where str = "pre @ rest"]) simp_all
  then show ?thesis
    by simp
qed

lemma linked_not_reported:
  assumes "m \<in> set (findURLsInText (pre @ ''['' @ label @ '']('' @ u @ '')'' @ post))"
  shows "mindex m \<noteq> length pre + length label + 3"
    and "length pre + length label + 3 < mindex m \<Longrightarrow>
         mindex m < length pre + length label + 3 + length u \<Longrightarrow> murl m \<noteq> u"
proof -
  let ?str = "pre @ ''['' @ label @ '']('' @ u @ '')'' @ post"
  let ?q = "length pre + length label + 3"
  obtain n where n: "matchAt ?str (mindex m) = Some n"
    and mu: "murl m = trim (take n (drop (mindex m) ?str))"
    using execLoop_sound [of m ?str 0] assms unfolding findURLsInText_def by blast
  have "matchAt ((pre @ ''['' @ label) @ '']('' @ (u @ '')'' @ post)) (length (pre @ ''['' @ label) + 2) = None"
    by (rule lookbehind_blocks)
  then have "matchAt ?str ?q = None"
    by (simp add: numeral_3_eq_3)
  then show "mindex m \<noteq> ?q"
    using n by auto
  show "murl m \<noteq> u" if inside: "?q < mindex m" "mindex m < ?q + length u"
  proof -
    have e: "?str ! (?q + length u) = CHR '')''"
    proof -
      have "?str = (pre @ ''['' @ label @ '']('' @ u) @ '')'' @ post"
        by simp
      moreover have "length (pre @ ''['' @ label @ '']('' @ u) = ?q + length u"
        by simp
      ultimately show ?thesis
        by (metis nth_append_length append_Cons)
    qed
    have len: "?q + length u < length ?str"
      by simp
    have stop: "\<not> isUrlChar (?str ! (?q + length u))"
      unfolding e by (simp add: isUrlChar_def)
    have "mindex m \<le> ?q + length u"
      using inside(2) by simp
    then have "mindex m + n \<le> ?q + length u"
      by (rule match_stops [OF n len stop])
    then have "n < length u"
      using inside(1) by simp
    moreover have "length (murl m) \<le> length (take n (drop (mindex m) ?str))"
      unfolding mu by (rule trim_length)
    moreover have "length (take n (drop (mindex m) ?str)) \<le> n"
      by (simp only: length_take min.cobounded2)
    ultimately have "length (murl m) < length u"
      by linarith
    then show ?thesis
      by auto
  qed
qed

lemma unlinked_reported:
  assumes shaped: "urlShaped u" and stop: "post = [] \<or> \<not> isUrlChar (hd post)"
    and unlinked: "2 \<le> length pre \<longrightarrow> drop (length pre - 2) pre \<noteq> ''](''"
    and free: "\<forall>j < length pre. \<forall>k. matchAt (pre @ u @ post) j = Some k \<longrightarrow> j + k \<le> length pre"
  shows "\<lparr>murl = u, mindex = length pre\<rparr> \<in> set (findURLsInText (pre @ u @ post))"
proof -
  let ?str = "pre @ u @ post"
  have body: "matchBody (u @ post) = Some (length u)"
    using shaped stop by (rule matchBody_shaped)
  have ne: "u \<noteq> []" and h: "hd u = CHR ''h''" and l: "isUrlChar (last u)"
    using shaped
    by (auto simp: urlShaped_def startsWith_iff list_all_iff split: if_splits)
  have "take 2 (drop (length pre - 2) ?str) = drop (length pre - 2) pre" if "2 \<le> length pre"
    using that by simp
  then have at: "matchAt ?str (length pre) = Some (length u)"
    using unlinked body by (simp add: matchAt_def)
  have "trim u = u"
    using ne h l by (intro trim_id) (simp_all add: isUrlChar_def isWhiteSpace_def)
  moreover have "length pre < length ?str"
    using ne by simp
  ultimately show ?thesis
    using execLoop_complete [OF at, of 0] free by (simp add: findURLsInText_def)
qed

subsection \<open>What the matcher passes over and what it reports\<close>

text \<open>
  In a text \<open>pre [label](u) post\<close> the matcher reports no occurrence at the index
  where \<open>u\<close> starts, and no occurrence that starts further inside \<open>u\<close> has \<open>u\<close> as
  its URL. In a text \<open>pre u post\<close> where \<open>u\<close> has the shape of a URL and ends with
  the text or before a white space or \<open>)\<close>, where \<open>pre\<close> does not end in \<open>](\<close>, and
  where no match of the pattern that begins in \<open>pre\<close> runs on into \<open>u\<close>, the matcher
  reports \<open>u\<close> with the index at which \<open>u\<close> starts.
\<close>

lemma matcher_target_skipped_unlinked_found:
  "(\<forall>m \<in> set (findURLsInText (pre @ ''['' @ label @ '']('' @ u @ '')'' @ post)).
       mindex m \<noteq> length pre + length label + 3 \<and>
       (length pre + length label + 3 < mindex m \<and>
        mindex m < length pre + length label + 3 + length u \<longrightarrow> murl m \<noteq> u)) \<and>
   (urlShaped u \<longrightarrow> (post = [] \<or> \<not> isUrlChar (hd post)) \<longrightarrow>
    (2 \<le> length pre \<longrightarrow> drop (length pre - 2) pre \<noteq> '']('') \<longrightarrow>
    (\<forall>j < length pre. \<forall>k. matchAt (pre @ u @ post) j = Some k \<longrightarrow> j + k \<le> length pre) \<longrightarrow>
      \<lparr>murl = u, mindex = length pre\<rparr> \<in> set (findURLsInText (pre @ u @ post)))"
  using linked_not_reported [of _ pre label u post] unlinked_reported [of u post pre]
  by blast


lemma matcher_examples:
  "urlShaped ''https://example.com/cool-page'' \<and>
   \<not> isUrlChar (hd '' for info'') \<and>
   drop (length ''see '' - 2) ''see '' \<noteq> '']('' \<and>
   (\<forall>j < length ''see ''. \<forall>k.
      matchAt (''see '' @ ''https://example.com/cool-page'' @ '' for info'') j = Some k \<longrightarrow>
      j + k \<le> length ''see '') \<and>
   \<lparr>murl = ''https://example.com/cool-page'', mindex = 4\<rparr>
     \<in> set (findURLsInText ''see https://example.com/cool-page for info'') \<and>
   \<lparr>murl = ''http://b.c/d'', mindex = 38\<rparr>
     \<in> set (findURLsInText ''[Existing](https://example.com/x) and http://b.c/d'') \<and>
   (\<forall>m \<in> set (findURLsInText ''[Existing](https://example.com/x) and http://b.c/d'').
      mindex m \<noteq> 11)"
proof -
  have s: "urlShaped ''https://example.com/cool-page''"
    by (simp add: urlShaped_def startsWith_def isUrlChar_def isWhiteSpace_def)
  have p: "\<not> isUrlChar (hd '' for info'')"
    by (simp add: isUrlChar_def isWhiteSpace_def)
  have u: "drop (length ''see '' - 2) ''see '' \<noteq> ''](''"
    by simp
  have f: "\<forall>j < length ''see ''. \<forall>k.
      matchAt (''see '' @ ''https://example.com/cool-page'' @ '' for info'') j = Some k \<longrightarrow>
      j + k \<le> length ''see ''"
  proof (intro allI impI)
    fix j k
    assume "j < length ''see ''"
      and "matchAt (''see '' @ ''https://example.com/cool-page'' @ '' for info'') j = Some k"
    then show "j + k \<le> length ''see ''"
      by (intro no_overlap [where pre = "''see ''"
            and rest = "''https://example.com/cool-page'' @ '' for info''"])
         (simp_all add: isUrlChar_def isWhiteSpace_def)
  qed
  have d: "findURLsInText ''[Existing](https://example.com/x) and http://b.c/d''
      = [\<lparr>murl = ''http://b.c/d'', mindex = 38\<rparr>]"
    by code_simp
  have l4: "length ''see '' = 4"
    by simp
  have "\<lparr>murl = ''https://example.com/cool-page'', mindex = length ''see ''\<rparr>
     \<in> set (findURLsInText (''see '' @ ''https://example.com/cool-page'' @ '' for info''))"
    using matcher_target_skipped_unlinked_found [where u = "''https://example.com/cool-page''"
        and post = "'' for info''" and pre = "''see ''"] s p u f
    by blast
  then have a: "\<lparr>murl = ''https://example.com/cool-page'', mindex = 4\<rparr>
     \<in> set (findURLsInText ''see https://example.com/cool-page for info'')"
    unfolding l4 by simp
  have "\<forall>m \<in> set (findURLsInText ([] @ ''['' @ ''Existing'' @ '']('' @ ''https://example.com/x''
        @ '')'' @ '' and http://b.c/d'')). mindex m \<noteq> length ([] :: string) + length ''Existing'' + 3"
    using matcher_target_skipped_unlinked_found [where pre = "[]" and label = "''Existing''"
        and u = "''https://example.com/x''" and post = "'' and http://b.c/d''"]
    by blast
  then have b: "\<forall>m \<in> set (findURLsInText ''[Existing](https://example.com/x) and http://b.c/d'').
      mindex m \<noteq> 11"
    by simp
  have c: "\<lparr>murl = ''http://b.c/d'', mindex = 38\<rparr>
     \<in> set (findURLsInText ''[Existing](https://example.com/x) and http://b.c/d'')"
    unfolding d by simp
  show ?thesis
    using s p u f a b c by blast
qed


subsection \<open>C6: a URL inside a link can still be reported\<close>

text \<open>
  C6, at two texts that are one well-formed markdown link each. In the first the
  link's target holds a second URL, which the matcher reports at index 37, inside
  the target. In the second the link's label is a URL: the matcher reports an
  occurrence at index 1 that runs from the label into the target.
\<close>

theorem C6_url_inside_link_reported:
  "findURLsInText ''[x](https://web.archive.org/web/2020/https://example.com)''
     = [\<lparr>murl = ''https://example.com'', mindex = 37\<rparr>] \<and>
   findURLsInText ''[https://example.com](https://example.com)''
     = [\<lparr>murl = ''https://example.com](https://example.com'', mindex = 1\<rparr>]"
  by code_simp

subsection \<open>Facts about the fallback title\<close>

lemma split_nonempty: "split sep s \<noteq> []"
  by (induction s) (auto split: list.splits)

lemma split_no_sep: "sep \<notin> set s \<Longrightarrow> split sep s = [s]"
  by (induction s) auto

lemma split_two: "sep \<in> set s \<Longrightarrow> \<exists>w v ws. split sep s = w # v # ws"
proof (induction s)
  case Nil
  then show ?case by simp
next
  case (Cons c cs)
  show ?case
  proof (cases "c = sep")
    case True
    then show ?thesis
      using split_nonempty [of sep cs] by (cases "split sep cs") auto
  next
    case False
    then have "sep \<in> set cs"
      using Cons.prems by simp
    then obtain w v ws where "split sep cs = w # v # ws"
      using Cons.IH by blast
    then show ?thesis
      using False by simp
  qed
qed

lemma last_split: "last (split sep s) = rev (takeWhile (\<lambda>c. c \<noteq> sep) (rev s))"
proof (induction s)
  case Nil
  then show ?case by simp
next
  case (Cons c cs)
  show ?case
  proof (cases "c = sep")
    case True
    then show ?thesis
      using Cons.IH split_nonempty [of sep cs] by (simp add: takeWhile_tail)
  next
    case False
    show ?thesis
    proof (cases "sep \<in> set cs")
      case True
      then obtain w v ws where sp: "split sep cs = w # v # ws"
        using split_two by blast
      have tw: "takeWhile (\<lambda>c. c \<noteq> sep) (rev cs @ [c]) = takeWhile (\<lambda>c. c \<noteq> sep) (rev cs)"
        using True by (intro takeWhile_append1 [where x = sep]) simp_all
      show ?thesis
        using Cons.IH False sp by (simp add: tw)
    next
      case no: False
      then have tw: "takeWhile (\<lambda>c. c \<noteq> sep) (rev cs @ [c]) = rev cs @ [c]"
        using False by (auto simp: takeWhile_eq_all_conv)
      show ?thesis
        using False no by (simp add: split_no_sep tw)
    qed
  qed
qed

lemma pop_split: "pop_or_empty (split (CHR ''/'') p) = afterLastSlash p"
proof -
  have "pop_or_empty xs = last xs" if "xs \<noteq> []" for xs :: "string list"
    using that by (cases xs rule: rev_cases) (simp_all add: pop_or_empty_def)
  then show ?thesis
    by (simp add: split_nonempty last_split afterLastSlash_def)
qed

lemma replaceSeparators_empty: "replaceSeparators d = [] \<longleftrightarrow> d = []"
  by (simp add: replaceSeparators_def)

lemma replaceSeparators_slash: "replaceSeparators d = ''/'' \<longleftrightarrow> d = ''/''"
  by (cases d) (auto simp: replaceSeparators_def split: if_splits)


lemma stripExt_unfold: "stripExt (c # cs) = (if isExt (c # cs) then [] else c # stripExt cs)"
  by (simp add: isExt_def)

lemma isExt_length: "isExt s \<Longrightarrow> length s = 4 \<or> length s = 5"
proof -
  assume "isExt s"
  then have "length (map lowerASCII s) = 4 \<or> length (map lowerASCII s) = 5"
    unfolding isExt_def by auto
  then show ?thesis
    by simp
qed

lemma isExt_five: "length s = 5 \<Longrightarrow> isExt s \<longleftrightarrow> map lowerASCII s = ''.html'' \<or> map lowerASCII s = ''.aspx''"
proof -
  assume l: "length s = 5"
  have "map lowerASCII s \<noteq> ''.php''" "map lowerASCII s \<noteq> ''.asp''"
    using l by (auto dest: arg_cong [where f = length])
  then show ?thesis
    by (auto simp: isExt_def)
qed

lemma isExt_four: "length s = 4 \<Longrightarrow> isExt s \<longleftrightarrow> map lowerASCII s = ''.php'' \<or> map lowerASCII s = ''.asp''"
proof -
  assume l: "length s = 4"
  have "map lowerASCII s \<noteq> ''.html''" "map lowerASCII s \<noteq> ''.aspx''"
    using l by (auto dest: arg_cong [where f = length])
  then show ?thesis
    by (auto simp: isExt_def)
qed

lemma stripExt_cut:
  "isExt (drop i s) \<Longrightarrow> i \<le> length s \<Longrightarrow> (\<forall>j<i. \<not> isExt (drop j s)) \<Longrightarrow> stripExt s = take i s"
proof (induction s arbitrary: i)
  case Nil
  then show ?case by simp
next
  case (Cons c cs)
  show ?case
  proof (cases i)
    case 0
    then show ?thesis
      using Cons.prems(1) by (simp add: stripExt_unfold del: stripExt.simps)
  next
    case (Suc k)
    have "\<not> isExt (c # cs)"
      using Cons.prems(3) Suc by (metis drop0 zero_less_Suc)
    moreover have "stripExt cs = take k cs"
    proof (rule Cons.IH)
      show "isExt (drop k cs)" using Cons.prems(1) Suc by simp
      show "k \<le> length cs" using Cons.prems(2) Suc by simp
      show "\<forall>j<k. \<not> isExt (drop j cs)"
      proof (intro allI impI)
        fix j assume "j < k"
        then have "\<not> isExt (drop (Suc j) (c # cs))"
          using Cons.prems(3) Suc by (metis Suc_less_eq)
        then show "\<not> isExt (drop j cs)" by simp
      qed
    qed
    ultimately show ?thesis
      using Suc by (simp add: stripExt_unfold del: stripExt.simps)
  qed
qed

lemma stripExt_none: "(\<forall>j. \<not> isExt (drop j s)) \<Longrightarrow> stripExt s = s"
proof (induction s)
  case Nil
  then show ?case by simp
next
  case (Cons c cs)
  have "\<not> isExt (c # cs)"
    using Cons.prems by (metis drop0)
  moreover have "\<forall>j. \<not> isExt (drop j cs)"
  proof
    fix j
    have "\<not> isExt (drop (Suc j) (c # cs))"
      using Cons.prems by blast
    then show "\<not> isExt (drop j cs)" by simp
  qed
  ultimately show ?case
    using Cons.IH by (simp add: stripExt_unfold del: stripExt.simps)
qed

lemma endsWithCI_five:
  "endsWithCI s ''.html'' \<or> endsWithCI s ''.aspx'' \<longleftrightarrow> 5 \<le> length s \<and> isExt (drop (length s - 5) s)"
proof (cases "5 \<le> length s")
  case True
  then have "length (drop (length s - 5) s) = 5" by simp
  then show ?thesis
    using True by (simp add: isExt_five endsWithCI_def drop_map eval_nat_numeral)
next
  case False
  then show ?thesis by (simp add: endsWithCI_def)
qed

lemma endsWithCI_four:
  "endsWithCI s ''.php'' \<or> endsWithCI s ''.asp'' \<longleftrightarrow> 4 \<le> length s \<and> isExt (drop (length s - 4) s)"
proof (cases "4 \<le> length s")
  case True
  then have "length (drop (length s - 4) s) = 4" by simp
  then show ?thesis
    using True by (simp add: isExt_four endsWithCI_def drop_map eval_nat_numeral)
next
  case False
  then show ?thesis by (simp add: endsWithCI_def)
qed

lemma stripExt_dropExtension: "stripExt s = dropExtension s"
proof -
  let ?n = "length s"
  have pos: "j = ?n - 5 \<and> 5 \<le> ?n \<or> j = ?n - 4 \<and> 4 \<le> ?n" if "isExt (drop j s)" for j
    using isExt_length [OF that] by auto
  show ?thesis
  proof (cases "5 \<le> ?n \<and> isExt (drop (?n - 5) s)")
    case True
    have "\<forall>j < ?n - 5. \<not> isExt (drop j s)"
      using pos by fastforce
    then have "stripExt s = take (?n - 5) s"
      using True by (intro stripExt_cut) simp_all
    moreover have "endsWithCI s ''.html'' \<or> endsWithCI s ''.aspx''"
      using True endsWithCI_five by blast
    ultimately show ?thesis
      by (simp add: dropExtension_def)
  next
    case five: False
    then have no5: "\<not> (endsWithCI s ''.html'' \<or> endsWithCI s ''.aspx'')"
      using endsWithCI_five by blast
    show ?thesis
    proof (cases "4 \<le> ?n \<and> isExt (drop (?n - 4) s)")
      case True
      have "\<forall>j < ?n - 4. \<not> isExt (drop j s)"
        using pos five by fastforce
      then have "stripExt s = take (?n - 4) s"
        using True by (intro stripExt_cut) simp_all
      moreover have "endsWithCI s ''.php'' \<or> endsWithCI s ''.asp''"
        using True endsWithCI_four by blast
      ultimately show ?thesis
        using no5 by (simp add: dropExtension_def)
    next
      case False
      then have no4: "\<not> (endsWithCI s ''.php'' \<or> endsWithCI s ''.asp'')"
        using endsWithCI_four by blast
      have "\<forall>j. \<not> isExt (drop j s)"
        using pos five False by blast
      then have "stripExt s = s"
        by (rule stripExt_none)
      then show ?thesis
        using no4 no5 by (simp add: dropExtension_def)
    qed
  qed
qed

subsection \<open>C7: the fallback title\<close>

text \<open>
  C7, as the code has it. For every input and every host, \<open>getTitleFromURL\<close>
  returns the input if it is no URL or if decoding the text after the last \<open>/\<close> of
  the path throws; else it takes that text, decoded, with \<open>-\<close> and \<open>_\<close> replaced by
  spaces, or the host name without a leading \<open>www.\<close> if that text is empty or
  \<open>/\<close>; removes an ending \<open>.html\<close>, \<open>.php\<close>, \<open>.asp\<close> or \<open>.aspx\<close> in any letter
  case; replaces \<open>-\<close> and \<open>_\<close> by spaces; trims each space-separated word and the
  whole; and returns the result, or the host name if the result is empty. For
  \<open>https://example.org/My_Report.html\<close> this is \<open>My Report\<close>, for
  \<open>https://example.org/\<close> it is \<open>example.org\<close>.
\<close>

theorem C7_fallback_title:
  "getTitleFromURL P u = titleDescribed P u \<and>
   getTitleFromURL offline ''https://example.org/My_Report.html'' = ''My Report'' \<and>
   getTitleFromURL offline ''https://example.org/'' = ''example.org''"
proof -
  have "getTitleFromURL P u = titleDescribed P u"
    unfolding getTitleFromURL_def titleDescribed_def
    by (simp add: pop_split stripExt_dropExtension replaceSeparators_empty replaceSeparators_slash
        tidy_def Let_def split: option.splits)
  moreover have "getTitleFromURL offline ''https://example.org/My_Report.html'' = ''My Report''"
    by code_simp
  moreover have "getTitleFromURL offline ''https://example.org/'' = ''example.org''"
    by code_simp
  ultimately show ?thesis
    by simp
qed

text \<open>
  Against C7 as stated: where the path ends in \<open>/\<close> the code takes the host name,
  not the last non-empty segment; it also removes \<open>.asp\<close>, and an extension in
  capitals; and it replaces the separators of the host name too.
\<close>

theorem C7_trailing_slash_and_asp:
  "getTitleFromURL offline ''https://example.org/docs/'' = ''example.org'' \<and>
   titleBySpec offline ''https://example.org/docs/'' = ''docs'' \<and>
   getTitleFromURL offline ''https://example.org/page.asp'' = ''page'' \<and>
   titleBySpec offline ''https://example.org/page.asp'' = ''page.asp'' \<and>
   getTitleFromURL offline ''https://example.org/INDEX.HTML'' = ''INDEX'' \<and>
   titleBySpec offline ''https://example.org/INDEX.HTML'' = ''INDEX.HTML'' \<and>
   getTitleFromURL offline ''https://my-site.org/'' = ''my site.org'' \<and>
   titleBySpec offline ''https://my-site.org/'' = ''my-site.org''"
  by code_simp


subsection \<open>Facts about the interleaving\<close>

lemma replace_keeps:
  "retryQueue (replaceURLWithMarkdown t lnk s) = retryQueue s"
  "isProcessing (replaceURLWithMarkdown t lnk s) = isProcessing s"
  "processingQueue (replaceURLWithMarkdown t lnk s) = processingQueue s"
  "processingUrls (replaceURLWithMarkdown t lnk s) = processingUrls s"
  by (simp_all add: replaceURLWithMarkdown_def setLine_def split: option.splits)

lemma enterBody_keeps:
  assumes "enterBody t s = Returned s'"
  shows "retryQueue s' = retryQueue s" "isProcessing s' = isProcessing s"
    "processingQueue s' = processingQueue s" "processingUrls s' = processingUrls s"
  using assms
  by (auto simp: enterBody_def replace_keeps split: option.splits if_splits)

lemma finishBody_keeps:
  assumes "finishBody R t s = (r, s')"
  shows "retryQueue s' = retryQueue s" "isProcessing s' = isProcessing s"
    "processingQueue s' = processingQueue s" "processingUrls s' = processingUrls s"
  using assms
  by (auto simp: finishBody_def replace_keeps split: prod.splits sum.splits)

lemma finishBody_returns:
  assumes "\<forall>u n. \<exists>t n'. R u n = (Inr t, n')" "finishBody R t s = (r, s')"
  shows "r = None"
proof -
  obtain T n' where "R (url t) (network s) = (Inr T, n')"
    using assms(1) by blast
  then show ?thesis
    using assms(2) by (simp add: finishBody_def)
qed

lemma one_nonempty: "length xs = 1 \<Longrightarrow> xs \<noteq> []"
  by auto

lemma loopHead_quiet:
  assumes "retryQueue (engine s) = []" "retrier s = Sleeping \<or> retrier s = Looping []"
    "length (drainers s) = 1" "isProcessing (engine s)"
  shows "quiet (loopHead 0 s)"
proof (cases "processingQueue (engine s)")
  case Nil
  then show ?thesis
    using assms by (simp add: loopHead_def quiet_def)
next
  case (Cons t rest)
  let ?e = "(engine s)\<lparr>processingQueue := rest\<rparr>"
  let ?m = "?e\<lparr>processingUrls := insert (inflightKey t) (processingUrls ?e)\<rparr>"
  show ?thesis
  proof (cases "inflightKey t \<in> processingUrls (engine s)")
    case True
    then show ?thesis
      using assms Cons one_nonempty [OF assms(3)] by (simp add: loopHead_def quiet_def)
  next
    case False
    show ?thesis
    proof (cases "enterBody t ?m")
      case (Returned e')
      have "retryQueue e' = []" "isProcessing e'"
        using enterBody_keeps [OF Returned] assms by simp_all
      then show ?thesis
        using assms Cons False Returned one_nonempty [OF assms(3)] by (simp add: loopHead_def quiet_def)
    next
      case Awaiting
      then show ?thesis
        using assms Cons False one_nonempty [OF assms(3)] by (simp add: loopHead_def quiet_def)
    qed
  qed
qed

lemma step_quiet:
  assumes R: "\<forall>u n. \<exists>t n'. R u n = (Inr t, n')"
    and q: "quiet s" and st: "step R ev s = Some s'"
  shows "quiet s'"
proof (cases ev)
  case (Enqueue tasks)
  let ?s = "s\<lparr>engine := enqueue tasks (engine s)\<rparr>"
  have e: "retryQueue (engine ?s) = []" "isProcessing (engine ?s) = isProcessing (engine s)"
    using q by (simp_all add: quiet_def enqueue_def)
  show ?thesis
  proof (cases "isProcessing (engine ?s) \<or> processingQueue (engine ?s) = []")
    case True
    then have "s' = ?s"
      using st Enqueue by (simp add: Let_def)
    then show ?thesis
      using q by (simp add: quiet_def enqueue_def)
  next
    case False
    then have d: "drainers s = []"
      using q e by (simp add: quiet_def)
    let ?t = "?s\<lparr>engine := (engine ?s)\<lparr>isProcessing := True\<rparr>, drainers := drainers ?s @ [Pausing]\<rparr>"
    have "s' = loopHead 0 ?t"
      using st Enqueue False d by (simp add: Let_def)
    moreover have "quiet (loopHead 0 ?t)"
      using q d by (intro loopHead_quiet) (simp_all add: quiet_def enqueue_def)
    ultimately show ?thesis
      by simp
  qed
next
  case (Edit d)
  then show ?thesis
    using q st by (auto simp: quiet_def)
next
  case (Resolved i now)
  then have i: "i < length (drainers s)"
    using st by (simp split: if_splits)
  then have i0: "i = 0" and l: "length (drainers s) = 1"
    using q by (simp_all add: quiet_def)
  obtain key t where d: "drainers s ! i = Resolving key t"
    using st Resolved i by (cases "drainers s ! i") simp_all
  obtain r e where f: "finishBody R t (engine s) = (r, e)"
    by (cases "finishBody R t (engine s)")
  have r: "r = None"
    using R f by (rule finishBody_returns)
  have "s' = s\<lparr>engine := e\<lparr>processingUrls := processingUrls e - {key}\<rparr>,
               drainers := (drainers s)[i := Pausing]\<rparr>"
    using st Resolved i d f r by (simp add: Let_def)
  then show ?thesis
    using q finishBody_keeps [OF f] by (simp add: quiet_def)
next
  case (Paused i)
  then have i: "i < length (drainers s)"
    using st by (simp split: if_splits)
  then have i0: "i = 0" and l: "length (drainers s) = 1"
    using q by (simp_all add: quiet_def)
  have "s' = loopHead 0 s"
    using st Paused i i0 by (cases "drainers s ! i") simp_all
  moreover have "quiet (loopHead 0 s)"
    using q l by (intro loopHead_quiet) (auto simp: quiet_def)
  ultimately show ?thesis
    by simp
next
  case (Tick now)
  then show ?thesis
    using q st by (auto simp: quiet_def split: retrier.splits)
next
  case (RetryNext editor)
  then show ?thesis
    using q st by (auto simp: quiet_def passHead_def split: retrier.splits)
next
  case RetryResolved
  then show ?thesis
    using q st by (auto simp: quiet_def split: retrier.splits)
qed

lemma run_quiet:
  assumes "\<forall>u n. \<exists>t n'. R u n = (Inr t, n')"
  shows "quiet s \<Longrightarrow> run R es s = Some s' \<Longrightarrow> quiet s'"
proof (induction es arbitrary: s)
  case Nil
  then show ?case by simp
next
  case (Cons e es)
  then obtain s1 where s1: "step R e s = Some s1" "run R es s1 = Some s'"
    by (auto split: option.splits)
  have "quiet s1"
    using assms Cons.prems(1) s1(1) by (rule step_quiet)
  then show ?case
    using s1(2) by (rule Cons.IH)
qed

lemma quiet_inFlight: "quiet s \<Longrightarrow> length (inFlight s) \<le> 1"
proof -
  assume q: "quiet s"
  have "length (resolving ds) \<le> length ds" for ds
    by (induction ds rule: resolving.induct) simp_all
  then have "length (resolving (drainers s)) \<le> 1"
    using q by (metis quiet_def le_trans)
  then show ?thesis
    using q by (auto simp: inFlight_def quiet_def)
qed


lemma processBody_phases:
  "processBody R t s = (case enterBody t s of Returned s' \<Rightarrow> (None, s') | Awaiting \<Rightarrow> finishBody R t s)"
  by (simp add: processBody_def enterBody_def finishBody_def split: option.splits)

lemma short_distinct: "length xs \<le> 1 \<Longrightarrow> distinct xs"
  by (cases xs) auto

lemma loaded_quiet: "quiet loaded"
  by (simp add: quiet_def loaded_def initial_def)

subsection \<open>C3: one resolution in flight\<close>

text \<open>
  C3. In every state that the plugin reaches from \<open>onload\<close> by calls of
  \<open>addToProcessingQueue\<close>, edits, steps of the queue loop and steps of the retry
  scheduler, in any order, with the title resolver of the source on any host, at
  most one resolution is in flight, so no two are in flight under one key; and the
  function queued for a task whose key is marked in flight returns with the state
  as it was.
\<close>

theorem C3_one_resolution_in_flight:
  "(reachable (defaultResolver P) s \<longrightarrow>
      length (inFlight s) \<le> 1 \<and> distinct (map fst (inFlight s))) \<and>
   (inflightKey t \<in> processingUrls e \<longrightarrow> processingFunction R now t e = e)"
proof (intro conjI impI)
  assume "reachable (defaultResolver P) s"
  then obtain es where "run (defaultResolver P) es loaded = Some s"
    unfolding reachable_def by blast
  moreover have "\<forall>u n. \<exists>t n'. defaultResolver P u n = (Inr t, n')"
    using defaultResolver_returns by blast
  ultimately have "quiet s"
    using loaded_quiet run_quiet by blast
  then show l: "length (inFlight s) \<le> 1"
    by (rule quiet_inFlight)
  then show "distinct (map fst (inFlight s))"
    by (intro short_distinct) simp
next
  assume "inflightKey t \<in> processingUrls e"
  then show "processingFunction R now t e = e"
    by (simp add: processingFunction_def)
qed

lemma awaiting_run: "run (defaultResolver offline) [Enqueue [coolPage]] loaded = Some awaiting"
  by code_simp

theorem C3_one_resolution_in_flight_witness:
  "reachable (defaultResolver offline) awaiting \<and>
   inFlight awaiting = [(''https://example.com/cool-page-0-4-1'', coolPage)] \<and>
   length (inFlight awaiting) \<le> 1 \<and> distinct (map fst (inFlight awaiting)) \<and>
   inflightKey coolPage \<in> processingUrls (engine awaiting) \<and>
   processingFunction titled 5 coolPage (engine awaiting) = engine awaiting"
proof -
  have r: "reachable (defaultResolver offline) awaiting"
    unfolding reachable_def using awaiting_run by blast
  have k: "inflightKey coolPage \<in> processingUrls (engine awaiting)"
    by code_simp
  have f: "inFlight awaiting = [(''https://example.com/cool-page-0-4-1'', coolPage)]"
    by (simp add: inFlight_def awaiting_def)
  show ?thesis
    using C3_one_resolution_in_flight [where P = offline and s = awaiting and t = coolPage
        and e = "engine awaiting" and R = titled and now = 5] r k f
    by blast
qed

lemma retry_pass_enters_unmarked:
  "map_option (\<lambda>s. map snd (inFlight s)) (run failing sameTaskRun loaded) = Some [coolPage, coolPage]"
  "map_option (\<lambda>s. map fst (inFlight s)) (run failing sameKeyRun loaded)
     = Some [''http://a-7-2-3'', ''http://a-7-2-3'']"
  by code_simp+

subsection \<open>Facts about what is held for retry\<close>






subsection \<open>C2: nothing is held for retry, and \<open>addToRetryQueue\<close> counts to three\<close>





end
